theory Spec2Isabelle
  imports Complex_Main
begin

section \<open>Paths and object keys\<close>

text \<open>
  The program runs on Node.js, whose \<open>path\<close> module follows the host platform.  A
  resolved absolute path is kept as its drive (empty on POSIX, \<open>C:\<close> and the like on
  Windows) and the list of its components below the root.
\<close>

datatype platform = Posix | Win32

record fpath =
  drive :: string
  comps :: "string list"

definition backslash :: char where
  "backslash = CHR 0x5C"

fun join_with :: "char \<Rightarrow> string list \<Rightarrow> string" where
  "join_with c [] = []"
| "join_with c [x] = x"
| "join_with c (x # y # ys) = x @ c # join_with c (y # ys)"

text \<open>\<open>path.join(dir, name)\<close> for a single component \<open>name\<close>.\<close>

definition path_join :: "fpath \<Rightarrow> string \<Rightarrow> fpath" where
  "path_join dir name = dir\<lparr>comps := comps dir @ [name]\<rparr>"

text \<open>\<open>String.prototype.toLowerCase\<close> on the ASCII letters.\<close>

definition lower_char :: "char \<Rightarrow> char" where
  "lower_char c =
     (let n = (of_char c :: nat) in if 65 \<le> n \<and> n \<le> 90 then char_of (n + 32) else c)"

definition toLowerCase :: "string \<Rightarrow> string" where
  "toLowerCase s = map lower_char s"

fun common_len :: "'a list \<Rightarrow> 'a list \<Rightarrow> nat" where
  "common_len (x # xs) (y # ys) = (if x = y then Suc (common_len xs ys) else 0)"
| "common_len _ _ = 0"

text \<open>The absolute path as the platform writes it.\<close>

definition render :: "platform \<Rightarrow> fpath \<Rightarrow> string" where
  "render os p =
     (case os of
        Posix \<Rightarrow> CHR ''/'' # join_with CHR ''/'' (comps p)
      | Win32 \<Rightarrow> drive p @ backslash # join_with backslash (comps p))"

text \<open>
  \<open>path.relative(from, to)\<close> on resolved paths: one \<open>..\<close> for every component of
  \<open>from\<close> below the common prefix, then the rest of \<open>to\<close>, joined by the separator of
  the platform (\<open>/\<close> on POSIX, the backslash on Windows).  On Windows the comparison
  ignores case, and two paths on different drives have nothing in common: the result is
  \<open>to\<close> itself.  The function never throws.
\<close>

definition path_relative :: "platform \<Rightarrow> fpath \<Rightarrow> fpath \<Rightarrow> string" where
  "path_relative os from to =
     (case os of
        Posix \<Rightarrow>
          (let n = common_len (comps from) (comps to)
           in join_with CHR ''/'' (replicate (length (comps from) - n) ''..'' @ drop n (comps to)))
      | Win32 \<Rightarrow>
          (if toLowerCase (drive from) \<noteq> toLowerCase (drive to) then render Win32 to
           else
             (let n = common_len (map toLowerCase (comps from)) (map toLowerCase (comps to))
              in join_with backslash
                   (replicate (length (comps from) - n) ''..'' @ drop n (comps to)))))"

text \<open>\<open>s.replace(/\\/g, '/')\<close>.\<close>

definition replace_backslashes :: "string \<Rightarrow> string" where
  "replace_backslashes s = map (\<lambda>c. if c = backslash then CHR ''/'' else c) s"

text \<open>Lines 140 and 141 of \<open>uploadFile\<close>: the object key of a file.\<close>

definition s3Key :: "platform \<Rightarrow> fpath \<Rightarrow> fpath \<Rightarrow> string" where
  "s3Key os base filePath = replace_backslashes (path_relative os base filePath)"

datatype error = InvalidPathError

text \<open>
  The spec's \<open>resolveKey\<close> is these two lines.  Neither call throws, so the result is
  always a key.
\<close>

definition resolveKey :: "platform \<Rightarrow> fpath \<Rightarrow> fpath \<Rightarrow> error + string" where
  "resolveKey os base absolutePath = Inr (s3Key os base absolutePath)"

text \<open>
  \<open>absolutePath\<close> lies below \<open>baseDir\<close>.  Windows compares drives and names without
  regard to case.
\<close>

definition fold_case :: "platform \<Rightarrow> string \<Rightarrow> string" where
  "fold_case os name = (case os of Posix \<Rightarrow> name | Win32 \<Rightarrow> toLowerCase name)"

definition is_under :: "platform \<Rightarrow> fpath \<Rightarrow> fpath \<Rightarrow> bool" where
  "is_under os base p \<longleftrightarrow>
     (os = Posix \<or> toLowerCase (drive p) = toLowerCase (drive base)) \<and>
     length (comps base) < length (comps p) \<and>
     take (length (comps base)) (map (fold_case os) (comps p)) = map (fold_case os) (comps base)"

section \<open>Content types\<close>

text \<open>\<open>path.extname\<close> of the last component.\<close>

definition extname :: "fpath \<Rightarrow> string" where
  "extname p =
     (case rev (comps p) of
        [] \<Rightarrow> []
      | b # _ \<Rightarrow>
          (let tail = takeWhile (\<lambda>c. c \<noteq> CHR ''.'') (rev b)
           in if length tail = length b then []
              else if length b - length tail - 1 = 0 then []
              else if b = ''..'' then []
              else drop (length b - length tail - 1) b))"

definition contentTypes :: "(string \<times> string) list" where
  "contentTypes =
     [(''.jpg'', ''image/jpeg''), (''.jpeg'', ''image/jpeg''), (''.png'', ''image/png''),
      (''.gif'', ''image/gif''), (''.webp'', ''image/webp''), (''.svg'', ''image/svg+xml''),
      (''.html'', ''text/html''), (''.css'', ''text/css''),
      (''.js'', ''application/javascript''), (''.json'', ''application/json''),
      (''.pdf'', ''application/pdf''), (''.txt'', ''text/plain''), (''.md'', ''text/markdown''),
      (''.xml'', ''application/xml''), (''.zip'', ''application/zip''),
      (''.mp3'', ''audio/mpeg''), (''.mp4'', ''video/mp4''), (''.webm'', ''video/webm''),
      (''.ico'', ''image/x-icon''), (''.ttf'', ''font/ttf''), (''.woff'', ''font/woff''),
      (''.woff2'', ''font/woff2'')]"

definition getContentType :: "fpath \<Rightarrow> string" where
  "getContentType filePath =
     (let ext = toLowerCase (extname filePath)
      in case map_of contentTypes ext of
           Some t \<Rightarrow> t
         | None \<Rightarrow> ''application/octet-stream'')"

section \<open>Configuration, environment and counters\<close>

text \<open>
  The object \<open>config\<close>.  Its three numbers are results of \<open>parseInt\<close>, taken here to be
  integers of either sign; a setting that does not parse (\<open>NaN\<close>) is not modelled.
\<close>

record config =
  bucketName :: string
  region :: string
  baseDir :: fpath
  concurrency :: int
  retryAttempts :: int
  retryDelay :: int

text \<open>
  What the program cannot decide itself: the platform, the tree below the base directory,
  what the disk and the bucket answer to a transfer, and the clock.  \<open>disk w name\<close> is
  the entry \<open>name\<close> of the base directory, if there is one.  A node is a regular file,
  a directory with its listing, a directory that \<open>readdirSync\<close> cannot list
  (\<open>Unlistable\<close>), or anything else (\<open>Special\<close>: a symbolic link, a socket, a device).
  \<open>elapsed w\<close> is \<open>Date.now() - startTime\<close> in milliseconds when the summary is printed.
  \<open>readFileSync w f k\<close> is the result of reading \<open>f\<close> in the attempt with
  \<open>retryCount = k\<close> (\<open>Inl\<close> the message of the error thrown, \<open>Inr\<close> the content), and
  \<open>send w f k\<close> the result of the PutObject request of that attempt (\<open>Some\<close> the message
  of the rejection, \<open>None\<close> when the request succeeds).  What is thrown is an \<open>Error\<close>
  object, as \<open>fs\<close> and the SDK throw them: its \<open>message\<close> can be read.  The section on
  thrown values without a message lifts this.
\<close>

datatype node = RegularFile | Special | Directory "(string \<times> node) list" | Unlistable

record world =
  os :: platform
  disk :: "string \<Rightarrow> node option"
  readFileSync :: "fpath \<Rightarrow> nat \<Rightarrow> string + string"
  send :: "fpath \<Rightarrow> nat \<Rightarrow> string option"
  elapsed :: int

text \<open>
  The observable actions of a transfer: the read, the request (bucket, key, body, content
  type), the timer of a retry, the tick of the progress bar and the error line.
\<close>

datatype event =
    ReadFile fpath
  | PutObject string string string string
  | Sleep int
  | Increment
  | ErrorLog fpath string

text \<open>The global variables \<open>uploadedFiles\<close> and \<open>failedFiles\<close>, and the actions so far.\<close>

record counters =
  uploadedFiles :: nat
  failedFiles :: nat
  trace :: "event list"

definition emit :: "event \<Rightarrow> counters \<Rightarrow> counters" where
  "emit e s = s\<lparr>trace := trace s @ [e]\<rparr>"

section \<open>The transfer unit\<close>

text \<open>
  The \<open>try\<close> block of \<open>uploadFile\<close> up to the \<open>await\<close>: the file is read and the request
  is issued.  \<open>Inl\<close> is the error thrown by the read.
\<close>

definition before_await ::
  "config \<Rightarrow> world \<Rightarrow> fpath \<Rightarrow> nat \<Rightarrow> counters \<Rightarrow> (string + unit) \<times> counters" where
  "before_await cfg w filePath retryCount s =
     (case readFileSync w filePath retryCount of
        Inl msg \<Rightarrow> (Inl msg, emit (ReadFile filePath) s)
      | Inr fileContent \<Rightarrow>
          (Inr (),
           emit (PutObject (bucketName cfg) (s3Key (os w) (baseDir cfg) filePath) fileContent
                   (getContentType filePath))
             (emit (ReadFile filePath) s)))"

text \<open>The rest of the \<open>try\<close> block, once the request has settled.\<close>

definition after_await ::
  "config \<Rightarrow> world \<Rightarrow> fpath \<Rightarrow> nat \<Rightarrow> counters \<Rightarrow> string option \<times> counters" where
  "after_await cfg w filePath retryCount s =
     (case send w filePath retryCount of
        Some msg \<Rightarrow> (Some msg, s)
      | None \<Rightarrow> (None, emit Increment (s\<lparr>uploadedFiles := uploadedFiles s + 1\<rparr>)))"

definition try_body ::
  "config \<Rightarrow> world \<Rightarrow> fpath \<Rightarrow> nat \<Rightarrow> counters \<Rightarrow> string option \<times> counters" where
  "try_body cfg w filePath retryCount s =
     (case before_await cfg w filePath retryCount s of
        (Inl msg, s1) \<Rightarrow> (Some msg, s1)
      | (Inr _, s1) \<Rightarrow> after_await cfg w filePath retryCount s1)"

text \<open>
  The last branch of the \<open>catch\<close> block when what was caught is an \<open>Error\<close> object: the
  file is given up.  (\<open>catch_block_any\<close> below is the branch for any value.)
\<close>

definition give_up :: "fpath \<Rightarrow> string \<Rightarrow> counters \<Rightarrow> counters" where
  "give_up filePath msg s =
     emit (ErrorLog filePath msg) (emit Increment (s\<lparr>failedFiles := failedFiles s + 1\<rparr>))"

text \<open>\<open>uploadFile(filePath, retryCount)\<close>, run from its call to the value of its promise.\<close>

function uploadFile ::
  "config \<Rightarrow> world \<Rightarrow> fpath \<Rightarrow> nat \<Rightarrow> counters \<Rightarrow> bool \<times> counters" where
  "uploadFile cfg w filePath retryCount s =
     (case try_body cfg w filePath retryCount s of
        (None, s1) \<Rightarrow> (True, s1)
      | (Some msg, s1) \<Rightarrow>
          if int retryCount < retryAttempts cfg
          then uploadFile cfg w filePath (retryCount + 1) (emit (Sleep (retryDelay cfg)) s1)
          else (False, give_up filePath msg s1))"
  by pat_completeness auto
termination
  by (relation "measure (\<lambda>(cfg, w, filePath, retryCount, s).
        nat (retryAttempts cfg - int retryCount))") auto

declare uploadFile.simps [simp del]

text \<open>The number of requests among some actions.\<close>

fun is_put :: "event \<Rightarrow> bool" where
  "is_put (PutObject _ _ _ _) = True"
| "is_put _ = False"

definition sink_calls :: "event list \<Rightarrow> nat" where
  "sink_calls es = length (filter is_put es)"

fun is_read :: "event \<Rightarrow> bool" where
  "is_read (ReadFile _) = True"
| "is_read _ = False"

text \<open>The actions of one attempt whose read succeeds with content \<open>body\<close>.\<close>

definition request :: "config \<Rightarrow> world \<Rightarrow> fpath \<Rightarrow> string \<Rightarrow> event list" where
  "request cfg w filePath body =
     [ReadFile filePath,
      PutObject (bucketName cfg) (s3Key (os w) (baseDir cfg) filePath) body
        (getContentType filePath)]"


text \<open>What happened in an attempt: the error it ended with, if any, and its actions.\<close>

definition failure :: "world \<Rightarrow> fpath \<Rightarrow> nat \<Rightarrow> string option" where
  "failure w filePath k =
     (case readFileSync w filePath k of Inl msg \<Rightarrow> Some msg | Inr _ \<Rightarrow> send w filePath k)"

definition attempt_events :: "config \<Rightarrow> world \<Rightarrow> fpath \<Rightarrow> nat \<Rightarrow> event list" where
  "attempt_events cfg w filePath k =
     (case readFileSync w filePath k of
        Inl _ \<Rightarrow> [ReadFile filePath]
      | Inr body \<Rightarrow> request cfg w filePath body)"

section \<open>The batch scheduler\<close>

text \<open>\<open>Array.prototype.slice(start, end)\<close> on integers.\<close>

definition slice :: "'a list \<Rightarrow> int \<Rightarrow> int \<Rightarrow> 'a list" where
  "slice xs start fin =
     (let len = int (length xs);
          k = (if start < 0 then max (len + start) 0 else min start len);
          final = (if fin < 0 then max (len + fin) 0 else min fin len)
      in take (nat (final - k)) (drop (nat k) xs))"

text \<open>
  The first loop of \<open>processBatch\<close>.  When \<open>batchSize\<close> is not positive and there is a
  file, \<open>i\<close> never reaches the length of the list and the loop does not end (it
  pushes batches until the memory is used up): that is the value \<open>None\<close>.
\<close>

partial_function (option) batches_from ::
  "int \<Rightarrow> 'a list \<Rightarrow> int \<Rightarrow> 'a list list \<Rightarrow> 'a list list option" where
  "batches_from batchSize files i batches =
     (if i < int (length files)
      then batches_from batchSize files (i + batchSize)
             (batches @ [slice files i (i + batchSize)])
      else Some batches)"

declare batches_from.simps [code]

definition make_batches :: "config \<Rightarrow> 'a list \<Rightarrow> 'a list list option" where
  "make_batches cfg files = batches_from (concurrency cfg) files 0 []"

text \<open>
  The partition in the words of the specification: consecutive groups of \<open>c\<close> tasks in
  the order of the list, the last group with what is left.
\<close>

function consecutive_groups :: "nat \<Rightarrow> 'a list \<Rightarrow> 'a list list" where
  "consecutive_groups c xs =
     (if c = 0 \<or> xs = [] then [] else take c xs # consecutive_groups c (drop c xs))"
  by pat_completeness auto
termination
  by (relation "measure (\<lambda>(c, xs). length xs)") auto

declare consecutive_groups.simps [simp del]

text \<open>
  An \<open>uploadFile\<close> call between two events of the event loop: its request is in flight
  (in the attempt \<open>retryCount\<close>), the timer of its retry is running (after the attempt
  \<open>retryCount\<close> failed), or its promise is fulfilled.
\<close>

datatype ustate = InFlight nat | Sleeping nat | Settled bool

text \<open>The \<open>catch\<close> block.\<close>

definition catch_block ::
  "config \<Rightarrow> fpath \<Rightarrow> nat \<Rightarrow> string \<Rightarrow> counters \<Rightarrow> ustate \<times> counters" where
  "catch_block cfg filePath retryCount msg s =
     (if int retryCount < retryAttempts cfg
      then (Sleeping retryCount, emit (Sleep (retryDelay cfg)) s)
      else (Settled False, give_up filePath msg s))"

text \<open>The call \<open>uploadFile(filePath, retryCount)\<close>, up to the point where it first waits.\<close>

definition start_attempt ::
  "config \<Rightarrow> world \<Rightarrow> fpath \<Rightarrow> nat \<Rightarrow> counters \<Rightarrow> ustate \<times> counters" where
  "start_attempt cfg w filePath retryCount s =
     (case before_await cfg w filePath retryCount s of
        (Inl msg, s1) \<Rightarrow> catch_block cfg filePath retryCount msg s1
      | (Inr _, s1) \<Rightarrow> (InFlight retryCount, s1))"

text \<open>The event a waiting call waits for arrives: its request settles or its timer fires.\<close>

definition resume ::
  "config \<Rightarrow> world \<Rightarrow> fpath \<Rightarrow> ustate \<Rightarrow> counters \<Rightarrow> ustate \<times> counters" where
  "resume cfg w filePath u s =
     (case u of
        InFlight k \<Rightarrow>
          (case after_await cfg w filePath k s of
             (None, s1) \<Rightarrow> (Settled True, s1)
           | (Some msg, s1) \<Rightarrow> catch_block cfg filePath k msg s1)
      | Sleeping k \<Rightarrow> start_attempt cfg w filePath (k + 1) s
      | Settled b \<Rightarrow> (Settled b, s))"

text \<open>\<open>batch.map(file => uploadFile(file))\<close>: the calls are made one after the other.\<close>

fun dispatch ::
  "config \<Rightarrow> world \<Rightarrow> fpath list \<Rightarrow> counters \<Rightarrow> (fpath \<times> ustate) list \<times> counters" where
  "dispatch cfg w [] s = ([], s)"
| "dispatch cfg w (file # files) s =
     (let (u, s1) = start_attempt cfg w file 0 s;
          (us, s2) = dispatch cfg w files s1
      in ((file, u) # us, s2))"

text \<open>
  The state of \<open>processBatch\<close> in its second loop: the counters, the results of the
  batches whose \<open>Promise.all\<close> is fulfilled, the calls of the batch being awaited, and
  the batches still to come.
\<close>

record sched =
  tally :: counters
  finished :: "bool list"
  active :: "(fpath \<times> ustate) list"
  queue :: "fpath list list"

fun is_settled :: "ustate \<Rightarrow> bool" where
  "is_settled (Settled _) = True"
| "is_settled _ = False"

fun is_inflight :: "ustate \<Rightarrow> bool" where
  "is_inflight (InFlight _) = True"
| "is_inflight _ = False"

fun result :: "ustate \<Rightarrow> bool" where
  "result (Settled b) = b"
| "result _ = False"

text \<open>
  The second loop runs on as long as the batch awaited is fulfilled: it then maps the next
  batch.
\<close>

fun advance ::
  "config \<Rightarrow> world \<Rightarrow> bool list \<Rightarrow> (fpath \<times> ustate) list \<Rightarrow> fpath list list \<Rightarrow> counters \<Rightarrow>
   sched" where
  "advance cfg w fin act [] s = \<lparr>tally = s, finished = fin, active = act, queue = []\<rparr>"
| "advance cfg w fin act (batch # rest) s =
     (if list_all (\<lambda>(f, u). is_settled u) act
      then (let (act', s') = dispatch cfg w batch s
            in advance cfg w (fin @ map (\<lambda>(f, u). result u) act) act' rest s')
      else \<lparr>tally = s, finished = fin, active = act, queue = batch # rest\<rparr>)"

definition zero :: counters where
  "zero = \<lparr>uploadedFiles = 0, failedFiles = 0, trace = []\<rparr>"

text \<open>\<open>processBatch(files)\<close> up to its first wait.\<close>

definition processBatch_start :: "config \<Rightarrow> world \<Rightarrow> fpath list \<Rightarrow> sched option" where
  "processBatch_start cfg w files =
     (case make_batches cfg files of
        None \<Rightarrow> None
      | Some batches \<Rightarrow> Some (advance cfg w [] [] batches zero))"

text \<open>
  One event of the event loop: what the task number \<open>i\<close> of the file list waits for
  arrives.  Only a task of the batch awaited that is not yet settled can be resumed.
\<close>

definition step :: "config \<Rightarrow> world \<Rightarrow> nat \<Rightarrow> sched \<Rightarrow> sched option" where
  "step cfg w i sc =
     (let p = i - length (finished sc)
      in if length (finished sc) \<le> i \<and> p < length (active sc)
         then (case active sc ! p of
                 (f, u) \<Rightarrow>
                   if is_settled u then None
                   else (let (u', s') = resume cfg w f u (tally sc)
                         in Some (advance cfg w (finished sc) ((active sc)[p := (f, u')])
                                    (queue sc) s')))
         else None)"

text \<open>A schedule is the order in which the events arrive.\<close>

fun exec :: "config \<Rightarrow> world \<Rightarrow> nat list \<Rightarrow> sched \<Rightarrow> sched option" where
  "exec cfg w [] sc = Some sc"
| "exec cfg w (i # sch) sc =
     (case step cfg w i sc of None \<Rightarrow> None | Some sc' \<Rightarrow> exec cfg w sch sc')"

text \<open>The promise of \<open>processBatch\<close> is fulfilled.\<close>

definition complete :: "sched \<Rightarrow> bool" where
  "complete sc \<longleftrightarrow> queue sc = [] \<and> list_all (\<lambda>(f, u). is_settled u) (active sc)"

text \<open>The state of every task of the file list; \<open>None\<close>: not yet called.\<close>

definition statuses :: "sched \<Rightarrow> ustate option list" where
  "statuses sc =
     map (\<lambda>b. Some (Settled b)) (finished sc) @ map (\<lambda>(f, u). Some u) (active sc)
       @ replicate (length (concat (queue sc))) None"


section \<open>The tree scanner\<close>

text \<open>What \<open>getAllFiles\<close> writes to the console while it scans.\<close>

datatype notice = SkipWarning string | ScanError fpath

record scan =
  allFiles :: "fpath list"
  console :: "notice list"

text \<open>
  \<open>scanDir(currentDir)\<close>, where the node is what \<open>currentDir\<close> is on disk.
  \<open>readdirSync\<close> throws unless the node is a directory that can be listed; the error is
  caught and logged in the same call.  \<open>scanEntries\<close> is the loop over the listing.
\<close>

fun scanDir :: "fpath \<Rightarrow> node \<Rightarrow> scan \<Rightarrow> scan"
  and scanEntries :: "fpath \<Rightarrow> (string \<times> node) list \<Rightarrow> scan \<Rightarrow> scan" where
  "scanDir currentDir (Directory entries) st = scanEntries currentDir entries st"
| "scanDir currentDir Unlistable st = st\<lparr>console := console st @ [ScanError currentDir]\<rparr>"
| "scanDir currentDir RegularFile st = st\<lparr>console := console st @ [ScanError currentDir]\<rparr>"
| "scanDir currentDir Special st = st\<lparr>console := console st @ [ScanError currentDir]\<rparr>"
| "scanEntries currentDir [] st = st"
| "scanEntries currentDir ((name, Directory entries) # rest) st =
     scanEntries currentDir rest (scanDir (path_join currentDir name) (Directory entries) st)"
| "scanEntries currentDir ((name, Unlistable) # rest) st =
     scanEntries currentDir rest (scanDir (path_join currentDir name) Unlistable st)"
| "scanEntries currentDir ((name, RegularFile) # rest) st =
     scanEntries currentDir rest
       (st\<lparr>allFiles := allFiles st @ [path_join currentDir name]\<rparr>)"
| "scanEntries currentDir ((name, Special) # rest) st = scanEntries currentDir rest st"

text \<open>
  The scan in the words of the specification: the regular files below a directory, depth
  first in the order of the listings, and one error line for every directory met that
  cannot be listed.
\<close>

fun files_below :: "fpath \<Rightarrow> node \<Rightarrow> fpath list"
  and files_among :: "fpath \<Rightarrow> (string \<times> node) list \<Rightarrow> fpath list" where
  "files_below dir (Directory entries) = files_among dir entries"
| "files_below dir Unlistable = []"
| "files_below dir RegularFile = []"
| "files_below dir Special = []"
| "files_among dir [] = []"
| "files_among dir ((name, Directory entries) # rest) =
     files_below (path_join dir name) (Directory entries) @ files_among dir rest"
| "files_among dir ((name, Unlistable) # rest) = files_among dir rest"
| "files_among dir ((name, RegularFile) # rest) = path_join dir name # files_among dir rest"
| "files_among dir ((name, Special) # rest) = files_among dir rest"

fun errors_below :: "fpath \<Rightarrow> node \<Rightarrow> notice list"
  and errors_among :: "fpath \<Rightarrow> (string \<times> node) list \<Rightarrow> notice list" where
  "errors_below dir (Directory entries) = errors_among dir entries"
| "errors_below dir Unlistable = [ScanError dir]"
| "errors_below dir RegularFile = [ScanError dir]"
| "errors_below dir Special = [ScanError dir]"
| "errors_among dir [] = []"
| "errors_among dir ((name, Directory entries) # rest) =
     errors_below (path_join dir name) (Directory entries) @ errors_among dir rest"
| "errors_among dir ((name, Unlistable) # rest) =
     ScanError (path_join dir name) # errors_among dir rest"
| "errors_among dir ((name, RegularFile) # rest) = errors_among dir rest"
| "errors_among dir ((name, Special) # rest) = errors_among dir rest"

text \<open>\<open>fs.existsSync(path.join(config.baseDir, folder))\<close>.\<close>

definition existsSync :: "world \<Rightarrow> string \<Rightarrow> bool" where
  "existsSync w folder \<longleftrightarrow> disk w folder \<noteq> None"

text \<open>The loop of \<open>getAllFiles\<close> over the folders.\<close>

fun scanFolders :: "config \<Rightarrow> world \<Rightarrow> string list \<Rightarrow> scan \<Rightarrow> scan" where
  "scanFolders cfg w [] st = st"
| "scanFolders cfg w (folder # rest) st =
     scanFolders cfg w rest
       (case disk w folder of
          Some n \<Rightarrow> scanDir (path_join (baseDir cfg) folder) n st
        | None \<Rightarrow> st\<lparr>console := console st @ [SkipWarning folder]\<rparr>)"

definition getAllFiles :: "config \<Rightarrow> world \<Rightarrow> string list \<Rightarrow> scan" where
  "getAllFiles cfg w folders = scanFolders cfg w folders \<lparr>allFiles = [], console = []\<rparr>"


section \<open>The run\<close>

definition FOLDERS_TO_UPLOAD :: "string list" where
  "FOLDERS_TO_UPLOAD = [''ExamGenrator'', ''Grand'', ''Keylinks'']"

text \<open>
  A JavaScript number, as far as the summary needs it: a finite value, \<open>Infinity\<close> or
  \<open>NaN\<close>.  The finite values are the exact quotients; the rounding of the double format
  is not modelled.
\<close>

datatype jsnum = Finite rat | Infinity | NaN

text \<open>
  \<open>uploadedFiles / duration\<close> where \<open>duration = (Date.now() - startTime) / 1000\<close>.
  JavaScript divides by zero without an error: the quotient is \<open>NaN\<close> for \<open>0 / 0\<close> and
  \<open>Infinity\<close> for a positive dividend.
\<close>

definition throughput :: "nat \<Rightarrow> int \<Rightarrow> jsnum" where
  "throughput uploaded ms =
     (let duration = (of_int ms :: rat) / 1000
      in if duration = 0 then (if uploaded = 0 then NaN else Infinity)
         else Finite (of_nat uploaded / duration))"

text \<open>\<open>Math.round\<close>.\<close>

fun js_round :: "jsnum \<Rightarrow> jsnum" where
  "js_round (Finite q) = Finite (of_int \<lfloor>q + 1 / 2\<rfloor>)"
| "js_round Infinity = Infinity"
| "js_round NaN = NaN"

text \<open>The lines of the summary.\<close>

record report =
  reportTotal :: nat
  reportUploaded :: nat
  reportFailed :: nat
  reportSeconds :: jsnum
  averageSpeed :: jsnum

text \<open>How \<open>main\<close> ends: with \<open>process.exit(code)\<close>, or by printing the summary.\<close>

datatype ending = Exit int | Summary report

text \<open>
  The run up to a point of the second loop of \<open>processBatch\<close>: \<open>totalFiles\<close> and the
  state of the scheduler after the events of \<open>sch\<close>.  The run has no such point when
  \<open>main\<close> exits before, when the first loop of \<open>processBatch\<close> does not end, or when
  \<open>sch\<close> names a task that waits for nothing.
\<close>

definition during ::
  "config \<Rightarrow> world \<Rightarrow> string list \<Rightarrow> nat list \<Rightarrow> (nat \<times> sched) option" where
  "during cfg w folders sch =
     (let existingFolders = filter (existsSync w) folders
      in if length existingFolders = 0 then None
         else
           (let files = allFiles (getAllFiles cfg w folders);
                totalFiles = length files
            in if totalFiles = 0 then None
               else (case processBatch_start cfg w files of
                       None \<Rightarrow> None
                     | Some sc0 \<Rightarrow>
                         (case exec cfg w sch sc0 of
                            None \<Rightarrow> None
                          | Some sc \<Rightarrow> Some (totalFiles, sc)))))"

text \<open>
  \<open>main\<close> with the folder list as a parameter, under the schedule \<open>sch\<close>.  \<open>None\<close>: the
  promise of \<open>processBatch\<close> is not fulfilled by \<open>sch\<close>.
\<close>

definition main :: "config \<Rightarrow> world \<Rightarrow> string list \<Rightarrow> nat list \<Rightarrow> ending option" where
  "main cfg w folders sch =
     (let existingFolders = filter (existsSync w) folders
      in if length existingFolders = 0 then Some (Exit 1)
         else
           (let files = allFiles (getAllFiles cfg w folders);
                totalFiles = length files
            in if totalFiles = 0 then Some (Exit 0)
               else (case during cfg w folders sch of
                       None \<Rightarrow> None
                     | Some (totalFiles, sc) \<Rightarrow>
                         if complete sc
                         then Some (Summary
                                \<lparr>reportTotal = totalFiles,
                                 reportUploaded = uploadedFiles (tally sc),
                                 reportFailed = failedFiles (tally sc),
                                 reportSeconds = js_round (Finite (of_int (elapsed w) / 1000)),
                                 averageSpeed =
                                   js_round (throughput (uploadedFiles (tally sc)) (elapsed w))\<rparr>)
                         else None)))"

section \<open>Thrown values without a message\<close>

text \<open>
  JavaScript throws, and rejects a promise with, any value.  The values \<open>null\<close> and
  \<open>undefined\<close> have no property \<open>message\<close>: reading it throws a \<open>TypeError\<close>.  The
  definitions of this section are those of the transfer unit, the scheduler and \<open>main\<close>
  with one more parameter: \<open>nl f k\<close> says that what the attempt \<open>k\<close> of the file \<open>f\<close>
  throws, if it throws, is \<open>null\<close> or \<open>undefined\<close>.  The definitions above are the case
  where \<open>nl\<close> never holds.
\<close>

text \<open>
  The promise of a call in this setting: the call is waiting or fulfilled, as before, or
  its promise is rejected.
\<close>

datatype gstate = Live ustate | Rejected

text \<open>
  \<open>uploadFile(filePath, retryCount)\<close> again, from its call to the value of its promise;
  \<open>None\<close>: the promise is rejected.  In the last branch of the \<open>catch\<close> block the
  counter is raised and the progress bar ticks (lines 161 and 162), then line 163 reads
  \<open>error.message\<close>.
\<close>

function uploadFile_any ::
  "config \<Rightarrow> world \<Rightarrow> (fpath \<Rightarrow> nat \<Rightarrow> bool) \<Rightarrow> fpath \<Rightarrow> nat \<Rightarrow> counters \<Rightarrow>
   bool option \<times> counters" where
  "uploadFile_any cfg w nl filePath retryCount s =
     (case try_body cfg w filePath retryCount s of
        (None, s1) \<Rightarrow> (Some True, s1)
      | (Some msg, s1) \<Rightarrow>
          if int retryCount < retryAttempts cfg
          then uploadFile_any cfg w nl filePath (retryCount + 1)
                 (emit (Sleep (retryDelay cfg)) s1)
          else (let s2 = emit Increment (s1\<lparr>failedFiles := failedFiles s1 + 1\<rparr>)
                in if nl filePath retryCount then (None, s2)
                   else (Some False, emit (ErrorLog filePath msg) s2)))"
  by pat_completeness auto
termination
  by (relation "measure (\<lambda>(cfg, w, nl, filePath, retryCount, s).
        nat (retryAttempts cfg - int retryCount))") auto

declare uploadFile_any.simps [simp del]

text \<open>The \<open>catch\<close> block, and the pieces of a call between two events, as before.\<close>

definition catch_block_any ::
  "config \<Rightarrow> (fpath \<Rightarrow> nat \<Rightarrow> bool) \<Rightarrow> fpath \<Rightarrow> nat \<Rightarrow> string \<Rightarrow> counters \<Rightarrow>
   gstate \<times> counters" where
  "catch_block_any cfg nl filePath retryCount msg s =
     (if int retryCount < retryAttempts cfg
      then (Live (Sleeping retryCount), emit (Sleep (retryDelay cfg)) s)
      else (let s2 = emit Increment (s\<lparr>failedFiles := failedFiles s + 1\<rparr>)
            in if nl filePath retryCount then (Rejected, s2)
               else (Live (Settled False), emit (ErrorLog filePath msg) s2)))"

definition start_attempt_any ::
  "config \<Rightarrow> world \<Rightarrow> (fpath \<Rightarrow> nat \<Rightarrow> bool) \<Rightarrow> fpath \<Rightarrow> nat \<Rightarrow> counters \<Rightarrow>
   gstate \<times> counters" where
  "start_attempt_any cfg w nl filePath retryCount s =
     (case before_await cfg w filePath retryCount s of
        (Inl msg, s1) \<Rightarrow> catch_block_any cfg nl filePath retryCount msg s1
      | (Inr _, s1) \<Rightarrow> (Live (InFlight retryCount), s1))"

definition resume_any ::
  "config \<Rightarrow> world \<Rightarrow> (fpath \<Rightarrow> nat \<Rightarrow> bool) \<Rightarrow> fpath \<Rightarrow> ustate \<Rightarrow> counters \<Rightarrow>
   gstate \<times> counters" where
  "resume_any cfg w nl filePath u s =
     (case u of
        InFlight k \<Rightarrow>
          (case after_await cfg w filePath k s of
             (None, s1) \<Rightarrow> (Live (Settled True), s1)
           | (Some msg, s1) \<Rightarrow> catch_block_any cfg nl filePath k msg s1)
      | Sleeping k \<Rightarrow> start_attempt_any cfg w nl filePath (k + 1) s
      | Settled b \<Rightarrow> (Live (Settled b), s))"

fun dispatch_any ::
  "config \<Rightarrow> world \<Rightarrow> (fpath \<Rightarrow> nat \<Rightarrow> bool) \<Rightarrow> fpath list \<Rightarrow> counters \<Rightarrow>
   (fpath \<times> gstate) list \<times> counters" where
  "dispatch_any cfg w nl [] s = ([], s)"
| "dispatch_any cfg w nl (file # files) s =
     (let (u, s1) = start_attempt_any cfg w nl file 0 s;
          (us, s2) = dispatch_any cfg w nl files s1
      in ((file, u) # us, s2))"

text \<open>
  The state of \<open>processBatch\<close>.  \<open>Promise.all\<close> is fulfilled when every call of the batch
  is; then the loop maps the next batch.
\<close>

record gsched =
  gtally :: counters
  gfinished :: "bool list"
  gactive :: "(fpath \<times> gstate) list"
  gqueue :: "fpath list list"

fun is_fulfilled :: "gstate \<Rightarrow> bool" where
  "is_fulfilled (Live u) = is_settled u"
| "is_fulfilled Rejected = False"

fun gresult :: "gstate \<Rightarrow> bool" where
  "gresult (Live u) = result u"
| "gresult Rejected = False"

fun advance_any ::
  "config \<Rightarrow> world \<Rightarrow> (fpath \<Rightarrow> nat \<Rightarrow> bool) \<Rightarrow> bool list \<Rightarrow> (fpath \<times> gstate) list \<Rightarrow>
   fpath list list \<Rightarrow> counters \<Rightarrow> gsched" where
  "advance_any cfg w nl fin act [] s =
     \<lparr>gtally = s, gfinished = fin, gactive = act, gqueue = []\<rparr>"
| "advance_any cfg w nl fin act (batch # rest) s =
     (if list_all (\<lambda>(f, u). is_fulfilled u) act
      then (let (act', s') = dispatch_any cfg w nl batch s
            in advance_any cfg w nl (fin @ map (\<lambda>(f, u). gresult u) act) act' rest s')
      else \<lparr>gtally = s, gfinished = fin, gactive = act, gqueue = batch # rest\<rparr>)"

definition processBatch_start_any ::
  "config \<Rightarrow> world \<Rightarrow> (fpath \<Rightarrow> nat \<Rightarrow> bool) \<Rightarrow> fpath list \<Rightarrow> gsched option" where
  "processBatch_start_any cfg w nl files =
     (case make_batches cfg files of
        None \<Rightarrow> None
      | Some batches \<Rightarrow> Some (advance_any cfg w nl [] [] batches zero))"

text \<open>
  \<open>Promise.all\<close> is rejected as soon as one call of the batch is: the \<open>await\<close> of line
  181 throws, the promise of \<open>processBatch\<close> is rejected, and the \<open>catch\<close> block of
  \<open>main\<close> (lines 251 to 253) ends the process with code 1, whatever the other calls of
  the batch are waiting for.  No event arrives after that.
\<close>

definition aborted :: "gsched \<Rightarrow> bool" where
  "aborted sc \<longleftrightarrow> list_ex (\<lambda>(f, u). u = Rejected) (gactive sc)"

definition step_any ::
  "config \<Rightarrow> world \<Rightarrow> (fpath \<Rightarrow> nat \<Rightarrow> bool) \<Rightarrow> nat \<Rightarrow> gsched \<Rightarrow> gsched option" where
  "step_any cfg w nl i sc =
     (let p = i - length (gfinished sc)
      in if \<not> aborted sc \<and> length (gfinished sc) \<le> i \<and> p < length (gactive sc)
         then (case gactive sc ! p of
                 (f, Rejected) \<Rightarrow> None
               | (f, Live u) \<Rightarrow>
                   if is_settled u then None
                   else (let (u', s') = resume_any cfg w nl f u (gtally sc)
                         in Some (advance_any cfg w nl (gfinished sc)
                                    ((gactive sc)[p := (f, u')]) (gqueue sc) s')))
         else None)"

fun exec_any ::
  "config \<Rightarrow> world \<Rightarrow> (fpath \<Rightarrow> nat \<Rightarrow> bool) \<Rightarrow> nat list \<Rightarrow> gsched \<Rightarrow> gsched option" where
  "exec_any cfg w nl [] sc = Some sc"
| "exec_any cfg w nl (i # sch) sc =
     (case step_any cfg w nl i sc of None \<Rightarrow> None | Some sc' \<Rightarrow> exec_any cfg w nl sch sc')"

definition gcomplete :: "gsched \<Rightarrow> bool" where
  "gcomplete sc \<longleftrightarrow> gqueue sc = [] \<and> list_all (\<lambda>(f, u). is_fulfilled u) (gactive sc)"


text \<open>\<open>main\<close> with its \<open>catch\<close> block.\<close>

definition main_any ::
  "config \<Rightarrow> world \<Rightarrow> (fpath \<Rightarrow> nat \<Rightarrow> bool) \<Rightarrow> string list \<Rightarrow> nat list \<Rightarrow> ending option" where
  "main_any cfg w nl folders sch =
     (let existingFolders = filter (existsSync w) folders
      in if length existingFolders = 0 then Some (Exit 1)
         else
           (let files = allFiles (getAllFiles cfg w folders);
                totalFiles = length files
            in if totalFiles = 0 then Some (Exit 0)
               else (case processBatch_start_any cfg w nl files of
                       None \<Rightarrow> None
                     | Some sc0 \<Rightarrow>
                         (case exec_any cfg w nl sch sc0 of
                            None \<Rightarrow> None
                          | Some sc \<Rightarrow>
                              if aborted sc then Some (Exit 1)
                              else if gcomplete sc
                              then Some (Summary
                                     \<lparr>reportTotal = totalFiles,
                                      reportUploaded = uploadedFiles (gtally sc),
                                      reportFailed = failedFiles (gtally sc),
                                      reportSeconds =
                                        js_round (Finite (of_int (elapsed w) / 1000)),
                                      averageSpeed =
                                        js_round (throughput (uploadedFiles (gtally sc))
                                                    (elapsed w))\<rparr>)
                              else None))))"

section \<open>Notions used in the statements and proofs\<close>

text \<open>The last attempt of a call that starts with \<open>retryCount = k\<close>, if all attempts fail.\<close>

definition last_attempt :: "config \<Rightarrow> nat \<Rightarrow> nat" where
  "last_attempt cfg k = max k (nat (retryAttempts cfg))"

definition tick :: "ustate \<Rightarrow> nat" where
  "tick u = (if is_settled u then 1 else 0)"

definition settled_count :: "(fpath \<times> ustate) list \<Rightarrow> nat" where
  "settled_count act = length (filter (\<lambda>(f, u). is_settled u) act)"

definition done_files :: "counters \<Rightarrow> nat" where
  "done_files s = uploadedFiles s + failedFiles s"

text \<open>Every batch has at most \<open>c\<close> tasks, and every batch but the last exactly \<open>c\<close>.\<close>

definition wf_groups :: "nat \<Rightarrow> 'a list list \<Rightarrow> bool" where
  "wf_groups c q \<longleftrightarrow>
     list_all (\<lambda>b. length b \<le> c) q \<and> list_all (\<lambda>b. length b = c) (butlast q)"

text \<open>
  The invariant of the second loop of \<open>processBatch\<close>, for \<open>n\<close> files in batches of
  \<open>c\<close>: the batches fulfilled are full, the counters count the settled tasks, and no
  task is lost.
\<close>

definition inv ::
  "nat \<Rightarrow> nat \<Rightarrow> bool list \<Rightarrow> (fpath \<times> ustate) list \<Rightarrow> fpath list list \<Rightarrow> counters \<Rightarrow> bool" where
  "inv c n fin act q s \<longleftrightarrow>
     c dvd length fin \<and> length act \<le> c \<and> (q = [] \<or> length act = c \<or> act = []) \<and>
     wf_groups c q \<and> done_files s = length fin + settled_count act \<and>
     length fin + length act + length (concat q) = n"

definition sinv :: "nat \<Rightarrow> nat \<Rightarrow> sched \<Rightarrow> bool" where
  "sinv c n sc \<longleftrightarrow>
     inv c n (finished sc) (active sc) (queue sc) (tally sc) \<and>
     (queue sc = [] \<or> \<not> list_all (\<lambda>(f, u). is_settled u) (active sc))"

text \<open>
  A bound on the events a call can still receive, and on those a whole run can: every
  event lowers it.
\<close>

fun work :: "config \<Rightarrow> ustate \<Rightarrow> nat" where
  "work cfg (Settled b) = 0"
| "work cfg (InFlight k) = 2 * (nat (retryAttempts cfg) - k) + 2"
| "work cfg (Sleeping k) = 2 * (nat (retryAttempts cfg) - Suc k) + 3"

definition bound :: "config \<Rightarrow> nat" where
  "bound cfg = 2 * nat (retryAttempts cfg) + 3"

definition load :: "config \<Rightarrow> (fpath \<times> ustate) list \<Rightarrow> nat" where
  "load cfg act = sum_list (map (\<lambda>(f, u). work cfg u) act)"

definition remaining :: "config \<Rightarrow> sched \<Rightarrow> nat" where
  "remaining cfg sc = load cfg (active sc) + length (concat (queue sc)) * bound cfg"

text \<open>The states of the tasks already called.\<close>

definition started :: "bool list \<Rightarrow> (fpath \<times> ustate) list \<Rightarrow> ustate option list" where
  "started fin act = map (\<lambda>b. Some (Settled b)) fin @ map (\<lambda>(f, u). Some u) act"

text \<open>
  The result of a file whatever the order of the events: some attempt up to the last one
  succeeds.  A waiting call is consistent with it when all its earlier attempts failed;
  the second invariant of the scheduler says so for every call, and that the counters
  count the results.
\<close>

definition verdict :: "config \<Rightarrow> world \<Rightarrow> fpath \<Rightarrow> bool" where
  "verdict cfg w f \<longleftrightarrow> (\<exists>j\<le>last_attempt cfg 0. failure w f j = None)"

fun unit_ok :: "config \<Rightarrow> world \<Rightarrow> fpath \<Rightarrow> ustate \<Rightarrow> bool" where
  "unit_ok cfg w f (InFlight k) \<longleftrightarrow>
     (\<forall>j<k. failure w f j \<noteq> None) \<and> k \<le> last_attempt cfg 0 \<and>
     (case readFileSync w f k of Inl _ \<Rightarrow> False | Inr _ \<Rightarrow> True)"
| "unit_ok cfg w f (Sleeping k) \<longleftrightarrow>
     (\<forall>j\<le>k. failure w f j \<noteq> None) \<and> int k < retryAttempts cfg"
| "unit_ok cfg w f (Settled b) \<longleftrightarrow> b = verdict cfg w f"

definition won :: "ustate \<Rightarrow> nat" where
  "won u = (if u = Settled True then 1 else 0)"

definition lost :: "ustate \<Rightarrow> nat" where
  "lost u = (if u = Settled False then 1 else 0)"

definition wins :: "(fpath \<times> ustate) list \<Rightarrow> nat" where
  "wins act = sum_list (map (\<lambda>(f, u). won u) act)"

definition losses :: "(fpath \<times> ustate) list \<Rightarrow> nat" where
  "losses act = sum_list (map (\<lambda>(f, u). lost u) act)"

definition linv ::
  "config \<Rightarrow> world \<Rightarrow> fpath list \<Rightarrow> bool list \<Rightarrow> (fpath \<times> ustate) list \<Rightarrow> fpath list list \<Rightarrow>
   counters \<Rightarrow> bool" where
  "linv cfg w files fin act q s \<longleftrightarrow>
     length fin \<le> length files \<and>
     drop (length fin) files = map fst act @ concat q \<and>
     fin = map (verdict cfg w) (take (length fin) files) \<and>
     list_all (\<lambda>(f, u). unit_ok cfg w f u) act \<and>
     uploadedFiles s = length (filter id fin) + wins act \<and>
     failedFiles s = length (filter Not fin) + losses act"

definition slinv :: "config \<Rightarrow> world \<Rightarrow> fpath list \<Rightarrow> sched \<Rightarrow> bool" where
  "slinv cfg w files sc \<longleftrightarrow>
     linv cfg w files (finished sc) (active sc) (queue sc) (tally sc)"

text \<open>A state of the scheduler as a state of the scheduler of the last section.\<close>

definition lift :: "fpath \<times> ustate \<Rightarrow> fpath \<times> gstate" where
  "lift x = (fst x, Live (snd x))"

definition embed :: "sched \<Rightarrow> gsched" where
  "embed sc =
     \<lparr>gtally = tally sc, gfinished = finished sc, gactive = map lift (active sc),
      gqueue = queue sc\<rparr>"

section \<open>Example inputs\<close>

definition ex_base :: fpath where
  "ex_base = \<lparr>drive = [], comps = [''srv'', ''site'']\<rparr>"

definition ex_file :: "string \<Rightarrow> fpath" where
  "ex_file name = path_join (path_join ex_base ''Grand'') name"

definition ex_cfg :: config where
  "ex_cfg =
     \<lparr>bucketName = ''assets'', region = ''us-east-1'', baseDir = ex_base, concurrency = 2,
      retryAttempts = 3, retryDelay = 1000\<rparr>"

definition ex_disk :: "string \<Rightarrow> node option" where
  "ex_disk =
     [''Grand'' \<mapsto>
        Directory
          [(''a.txt'', RegularFile), (''locked'', Unlistable),
           (''img'', Directory [(''b.png'', RegularFile), (''link'', Special)]),
           (''c.css'', RegularFile)]]"

definition ex_world ::
  "(fpath \<Rightarrow> nat \<Rightarrow> string + string) \<Rightarrow> (fpath \<Rightarrow> nat \<Rightarrow> string option) \<Rightarrow> world" where
  "ex_world rd sn =
     \<lparr>os = Posix, disk = ex_disk, readFileSync = rd, send = sn, elapsed = 1500\<rparr>"

text \<open>The bucket rejects every request; it rejects the first two; the disk refuses.\<close>

definition sink_down :: "fpath \<Rightarrow> nat \<Rightarrow> string option" where
  "sink_down f k = Some ''SlowDown''"

definition sink_flaky :: "fpath \<Rightarrow> nat \<Rightarrow> string option" where
  "sink_flaky f k = (if k < 2 then Some ''SlowDown'' else None)"

definition sink_up :: "fpath \<Rightarrow> nat \<Rightarrow> string option" where
  "sink_up f k = None"

definition disk_ok :: "fpath \<Rightarrow> nat \<Rightarrow> string + string" where
  "disk_ok f k = Inr ''data''"

definition disk_denied :: "fpath \<Rightarrow> nat \<Rightarrow> string + string" where
  "disk_denied f k = Inl ''EACCES''"

text \<open>The bucket rejects one file only.\<close>

definition sink_rejects :: "fpath \<Rightarrow> fpath \<Rightarrow> nat \<Rightarrow> string option" where
  "sink_rejects bad f k = (if f = bad then Some ''AccessDenied'' else None)"

text \<open>
  A file outside the base directory, a file whose name holds a backslash, and the file
  in a subdirectory whose path differs from it by a slash in that place.
\<close>

definition ex_outside :: fpath where
  "ex_outside = \<lparr>drive = [], comps = [''srv'', ''other'', ''f.txt'']\<rparr>"

definition ex_backslash :: fpath where
  "ex_backslash = ex_file (''a'' @ [backslash] @ ''b.txt'')"

definition ex_nested :: fpath where
  "ex_nested = path_join (ex_file ''a'') ''b.txt''"

text \<open>Nothing can be read, no retry is configured, and the clock does not advance.\<close>

definition ex_cfg_once :: config where
  "ex_cfg_once = ex_cfg\<lparr>retryAttempts := 0\<rparr>"

definition ex_world_instant :: world where
  "ex_world_instant = (ex_world disk_denied sink_up)\<lparr>elapsed := 0\<rparr>"

text \<open>The folder \<open>Grand\<close> exists and holds no file.\<close>

definition ex_world_empty :: world where
  "ex_world_empty =
     (ex_world disk_ok sink_up)\<lparr>disk := [''Grand'' \<mapsto> Directory [(''tmp'', Directory [])]]\<rparr>"



text \<open>The first read of a file fails, the later ones succeed.\<close>

definition disk_busy_once :: "fpath \<Rightarrow> nat \<Rightarrow> string + string" where
  "disk_busy_once f k = (if k = 0 then Inl ''EBUSY'' else Inr ''data'')"

definition five_files :: "fpath list" where
  "five_files = map ex_file [''1.txt'', ''2.txt'', ''3.txt'', ''4.txt'', ''5.txt'']"

section \<open>The transfer unit: retries\<close>

lemma try_body_eq:
  "try_body cfg w f k s =
     (failure w f k,
      if failure w f k = None
      then s\<lparr>uploadedFiles := uploadedFiles s + 1,
             trace := trace s @ attempt_events cfg w f k @ [Increment]\<rparr>
      else s\<lparr>trace := trace s @ attempt_events cfg w f k\<rparr>)"
  by (cases "readFileSync w f k"; cases "send w f k")
     (simp_all add: try_body_def before_await_def after_await_def failure_def
        attempt_events_def request_def emit_def)

text \<open>Every attempt fails: the call retries up to the limit and gives the file up once.\<close>

lemma uploadFile_fails_from:
  assumes "\<And>j. k \<le> j \<Longrightarrow> j \<le> last_attempt cfg k \<Longrightarrow> failure w f j = Some (msg j)"
  shows "uploadFile cfg w f k s =
     (False, s\<lparr>failedFiles := failedFiles s + 1,
               trace := trace s
                 @ concat (map (\<lambda>j. attempt_events cfg w f j @ [Sleep (retryDelay cfg)])
                     [k..<last_attempt cfg k])
                 @ attempt_events cfg w f (last_attempt cfg k)
                 @ [Increment, ErrorLog f (msg (last_attempt cfg k))]\<rparr>)"
  using assms
proof (induction cfg w f k s rule: uploadFile.induct)
  case (1 cfg w f k s)
  have fk: "failure w f k = Some (msg k)"
    using "1.prems" by (simp add: last_attempt_def)
  let ?s1 = "s\<lparr>trace := trace s @ attempt_events cfg w f k\<rparr>"
  have tb: "try_body cfg w f k s = (Some (msg k), ?s1)"
    by (simp add: try_body_eq fk)
  show ?case
  proof (cases "int k < retryAttempts cfg")
    case True
    then have la: "last_attempt cfg (Suc k) = last_attempt cfg k"
      and up: "[k..<last_attempt cfg k] = k # [Suc k..<last_attempt cfg k]"
      by (auto simp: last_attempt_def upt_conv_Cons)
    have "\<And>j. k + 1 \<le> j \<Longrightarrow> j \<le> last_attempt cfg (k + 1) \<Longrightarrow> failure w f j = Some (msg j)"
      using "1.prems" la by simp
    from "1.IH" [OF tb [symmetric] refl True this]
    show ?thesis
      using True by (subst uploadFile.simps) (simp add: tb la up emit_def)
  next
    case False
    then have la: "last_attempt cfg k = k"
      by (auto simp: last_attempt_def)
    show ?thesis
      using False by (subst uploadFile.simps) (simp add: tb la give_up_def emit_def)
  qed
qed

text \<open>The attempt \<open>n\<close> is the first to succeed: the call ends there.\<close>

lemma uploadFile_succeeds_from:
  assumes "k \<le> n" and "int n \<le> retryAttempts cfg \<or> n = k"
      and "\<And>j. k \<le> j \<Longrightarrow> j < n \<Longrightarrow> failure w f j \<noteq> None"
      and "failure w f n = None"
  shows "uploadFile cfg w f k s =
     (True, s\<lparr>uploadedFiles := uploadedFiles s + 1,
              trace := trace s
                @ concat (map (\<lambda>j. attempt_events cfg w f j @ [Sleep (retryDelay cfg)]) [k..<n])
                @ attempt_events cfg w f n @ [Increment]\<rparr>)"
  using assms
proof (induction cfg w f k s rule: uploadFile.induct)
  case (1 cfg w f k s)
  show ?case
  proof (cases "k = n")
    case True
    then show ?thesis
      using "1.prems"(4) by (subst uploadFile.simps) (simp add: try_body_eq)
  next
    case False
    then have lt: "k < n" using "1.prems"(1) by simp
    then obtain m where fk: "failure w f k = Some m"
      using "1.prems"(3) [of k] by auto
    let ?s1 = "s\<lparr>trace := trace s @ attempt_events cfg w f k\<rparr>"
    have tb: "try_body cfg w f k s = (Some m, ?s1)"
      by (simp add: try_body_eq fk)
    have retry: "int k < retryAttempts cfg"
      using "1.prems"(2) lt by auto
    have up: "[k..<n] = k # [Suc k..<n]"
      using lt by (simp add: upt_conv_Cons)
    have "k + 1 \<le> n" "int n \<le> retryAttempts cfg \<or> n = k + 1"
      "\<And>j. k + 1 \<le> j \<Longrightarrow> j < n \<Longrightarrow> failure w f j \<noteq> None"
      using lt "1.prems" by auto
    from "1.IH" [OF tb [symmetric] refl retry this "1.prems"(4)]
    show ?thesis
      using retry by (subst uploadFile.simps) (simp add: tb up emit_def)
  qed
qed

text \<open>The promise of a call is fulfilled with \<open>true\<close> exactly when an attempt succeeds.\<close>

lemma uploadFile_verdict:
  "fst (uploadFile cfg w f k s) \<longleftrightarrow>
     (\<exists>j. k \<le> j \<and> j \<le> last_attempt cfg k \<and> failure w f j = None)"
proof (cases "\<exists>j. k \<le> j \<and> j \<le> last_attempt cfg k \<and> failure w f j = None")
  case True
  define n where "n = (LEAST j. k \<le> j \<and> j \<le> last_attempt cfg k \<and> failure w f j = None)"
  have n: "k \<le> n \<and> n \<le> last_attempt cfg k \<and> failure w f n = None"
    unfolding n_def using True by (rule LeastI_ex)
  have least: "\<And>j. k \<le> j \<Longrightarrow> j < n \<Longrightarrow> failure w f j \<noteq> None"
  proof
    fix j assume "k \<le> j" "j < n" "failure w f j = None"
    then have "k \<le> j \<and> j \<le> last_attempt cfg k \<and> failure w f j = None"
      using n by simp
    then have "n \<le> j" unfolding n_def by (rule Least_le)
    with \<open>j < n\<close> show False by simp
  qed
  have "int n \<le> retryAttempts cfg \<or> n = k"
    using n by (auto simp: last_attempt_def max_def split: if_splits)
  from uploadFile_succeeds_from [OF _ this least, of s] n True
  show ?thesis by simp
next
  case False
  then have "\<And>j. k \<le> j \<Longrightarrow> j \<le> last_attempt cfg k \<Longrightarrow>
      failure w f j = Some (the (failure w f j))"
    by auto
  from uploadFile_fails_from [of k cfg w f "\<lambda>j. the (failure w f j)", OF this] False
  show ?thesis by simp
qed

lemma sink_calls_append [simp]: "sink_calls (xs @ ys) = sink_calls xs + sink_calls ys"
  by (simp add: sink_calls_def)

lemma sink_calls_request [simp]: "sink_calls (request cfg w f b) = 1"
  by (simp add: sink_calls_def request_def)

lemma sink_calls_rounds:
  "(\<And>j. j \<in> set js \<Longrightarrow> sink_calls (ev j) = 1) \<Longrightarrow>
   sink_calls (concat (map (\<lambda>j. ev j @ [Sleep d]) js)) = length js"
  by (induction js) (simp_all add: sink_calls_def)

lemma sink_calls_no_rounds:
  "(\<And>j. j \<in> set js \<Longrightarrow> sink_calls (ev j) = 0) \<Longrightarrow>
   sink_calls (concat (map (\<lambda>j. ev j @ [Sleep d]) js)) = 0"
  by (induction js) (simp_all add: sink_calls_def)

text \<open>
  Claim C2 counts \<open>r + 1\<close> requests when every attempt fails, and \<open>k\<close> requests when
  the request of attempt \<open>k\<close> succeeds.  An attempt can fail at the read, before any
  request is made.  With three retries and a file that cannot be read, all four attempts
  fail and no request is made; with a file whose first read fails and a bucket that rejects
  the first request it gets, the request of the third attempt succeeds and is the second
  request made.
\<close>

theorem retry_bound_read_failure_counterexample:
  "retryAttempts ex_cfg = 3 \<and>
   failure (ex_world disk_denied sink_up) (ex_file ''a.txt'') 0 \<noteq> None \<and>
   failure (ex_world disk_denied sink_up) (ex_file ''a.txt'') 1 \<noteq> None \<and>
   failure (ex_world disk_denied sink_up) (ex_file ''a.txt'') 2 \<noteq> None \<and>
   failure (ex_world disk_denied sink_up) (ex_file ''a.txt'') 3 \<noteq> None \<and>
   fst (uploadFile ex_cfg (ex_world disk_denied sink_up) (ex_file ''a.txt'') 0 zero) = False \<and>
   sink_calls
     (trace (snd (uploadFile ex_cfg (ex_world disk_denied sink_up) (ex_file ''a.txt'') 0 zero)))
     = 0 \<and>
   failure (ex_world disk_busy_once sink_flaky) (ex_file ''a.txt'') 0 \<noteq> None \<and>
   failure (ex_world disk_busy_once sink_flaky) (ex_file ''a.txt'') 1 \<noteq> None \<and>
   send (ex_world disk_busy_once sink_flaky) (ex_file ''a.txt'') 2 = None \<and>
   fst (uploadFile ex_cfg (ex_world disk_busy_once sink_flaky) (ex_file ''a.txt'') 0 zero)
     = True \<and>
   sink_calls
     (trace (snd (uploadFile ex_cfg (ex_world disk_busy_once sink_flaky) (ex_file ''a.txt'') 0
                    zero)))
     = 2"
  by code_simp

text \<open>
  Claim C2, amended.  Let the retry limit \<open>r\<close> be non-negative and the file readable in
  every attempt.  If the bucket rejects every request, the call makes exactly \<open>r + 1\<close>
  requests, with one timer of \<open>retryDelay\<close> after each request but the last, counts the
  file as failed once and is fulfilled with \<open>false\<close>.  If the request of attempt \<open>k \<le> r\<close>
  (counted from 1) is the first to succeed, the call makes exactly \<open>k\<close> requests, counts
  the file as uploaded once and is fulfilled with \<open>true\<close>; nothing follows.
\<close>

theorem uploadFile_retry_bound:
  assumes "0 \<le> retryAttempts cfg"
      and "\<forall>j. int j \<le> retryAttempts cfg \<longrightarrow> readFileSync w filePath j = Inr (body j)"
  shows
    "((\<forall>j. int j \<le> retryAttempts cfg \<longrightarrow> send w filePath j = Some (msg j)) \<longrightarrow>
        (\<exists>ev. uploadFile cfg w filePath 0 s =
                 (False, s\<lparr>failedFiles := failedFiles s + 1, trace := trace s @ ev\<rparr>) \<and>
              ev = concat (map (\<lambda>j. request cfg w filePath (body j) @ [Sleep (retryDelay cfg)])
                             [0..<nat (retryAttempts cfg)])
                   @ request cfg w filePath (body (nat (retryAttempts cfg)))
                   @ [Increment, ErrorLog filePath (msg (nat (retryAttempts cfg)))] \<and>
              sink_calls ev = nat (retryAttempts cfg) + 1)) \<and>
     (\<forall>k. 1 \<le> k \<and> int k \<le> retryAttempts cfg \<and>
          (\<forall>j. j < k - 1 \<longrightarrow> send w filePath j \<noteq> None) \<and> send w filePath (k - 1) = None \<longrightarrow>
        (\<exists>ev. uploadFile cfg w filePath 0 s =
                 (True, s\<lparr>uploadedFiles := uploadedFiles s + 1, trace := trace s @ ev\<rparr>) \<and>
              ev = concat (map (\<lambda>j. request cfg w filePath (body j) @ [Sleep (retryDelay cfg)])
                             [0..<k - 1])
                   @ request cfg w filePath (body (k - 1)) @ [Increment] \<and>
              sink_calls ev = k))"
proof (intro conjI impI allI)
  have la: "last_attempt cfg 0 = nat (retryAttempts cfg)"
    by (simp add: last_attempt_def)
  have ev: "\<And>j. int j \<le> retryAttempts cfg \<Longrightarrow>
      attempt_events cfg w filePath j = request cfg w filePath (body j)"
    using assms(2) by (simp add: attempt_events_def)
  have rounds: "\<And>n. int n \<le> retryAttempts cfg + 1 \<Longrightarrow>
      map (\<lambda>j. attempt_events cfg w filePath j @ [Sleep (retryDelay cfg)]) [0..<n] =
      map (\<lambda>j. request cfg w filePath (body j) @ [Sleep (retryDelay cfg)]) [0..<n]"
    by (rule map_cong) (auto simp: ev)
  {
    assume down: "\<forall>j. int j \<le> retryAttempts cfg \<longrightarrow> send w filePath j = Some (msg j)"
    have "\<And>j. 0 \<le> j \<Longrightarrow> j \<le> last_attempt cfg 0 \<Longrightarrow> failure w filePath j = Some (msg j)"
      using assms down by (simp add: failure_def la)
    then have "uploadFile cfg w filePath 0 s =
     (False, s\<lparr>failedFiles := failedFiles s + 1,
               trace := trace s
                 @ concat (map (\<lambda>j. attempt_events cfg w filePath j @ [Sleep (retryDelay cfg)])
                     [0..<last_attempt cfg 0])
                 @ attempt_events cfg w filePath (last_attempt cfg 0)
                 @ [Increment, ErrorLog filePath (msg (last_attempt cfg 0))]\<rparr>)"
      by (rule uploadFile_fails_from)
    then have "uploadFile cfg w filePath 0 s =
        (False, s\<lparr>failedFiles := failedFiles s + 1,
                 trace := trace s
                   @ concat (map (\<lambda>j. request cfg w filePath (body j) @ [Sleep (retryDelay cfg)])
                       [0..<nat (retryAttempts cfg)])
                   @ request cfg w filePath (body (nat (retryAttempts cfg)))
                   @ [Increment, ErrorLog filePath (msg (nat (retryAttempts cfg)))]\<rparr>)"
      using assms(1) by (simp add: la ev rounds)
    moreover have "sink_calls
        (concat (map (\<lambda>j. request cfg w filePath (body j) @ [Sleep (retryDelay cfg)])
                   [0..<nat (retryAttempts cfg)])
         @ request cfg w filePath (body (nat (retryAttempts cfg)))
         @ [Increment, ErrorLog filePath (msg (nat (retryAttempts cfg)))])
        = nat (retryAttempts cfg) + 1"
      by (simp add: sink_calls_rounds) (simp add: sink_calls_def)
    ultimately show "\<exists>ev. uploadFile cfg w filePath 0 s =
                 (False, s\<lparr>failedFiles := failedFiles s + 1, trace := trace s @ ev\<rparr>) \<and>
              ev = concat (map (\<lambda>j. request cfg w filePath (body j) @ [Sleep (retryDelay cfg)])
                             [0..<nat (retryAttempts cfg)])
                   @ request cfg w filePath (body (nat (retryAttempts cfg)))
                   @ [Increment, ErrorLog filePath (msg (nat (retryAttempts cfg)))] \<and>
              sink_calls ev = nat (retryAttempts cfg) + 1"
      by blast
  }
  {
    fix k
    assume k: "1 \<le> k \<and> int k \<le> retryAttempts cfg \<and>
          (\<forall>j. j < k - 1 \<longrightarrow> send w filePath j \<noteq> None) \<and> send w filePath (k - 1) = None"
    have 1: "0 \<le> k - 1" "int (k - 1) \<le> retryAttempts cfg \<or> k - 1 = 0"
      using k by auto
    have 2: "\<And>j. 0 \<le> j \<Longrightarrow> j < k - 1 \<Longrightarrow> failure w filePath j \<noteq> None"
      using k assms(2) by (auto simp: failure_def)
    have 3: "failure w filePath (k - 1) = None"
      using k assms(2) by (auto simp: failure_def)
    have "uploadFile cfg w filePath 0 s =
     (True, s\<lparr>uploadedFiles := uploadedFiles s + 1,
              trace := trace s
                @ concat (map (\<lambda>j. attempt_events cfg w filePath j @ [Sleep (retryDelay cfg)])
                    [0..<k - 1])
                @ attempt_events cfg w filePath (k - 1) @ [Increment]\<rparr>)"
      using 1 2 3 by (rule uploadFile_succeeds_from)
    then have "uploadFile cfg w filePath 0 s =
        (True, s\<lparr>uploadedFiles := uploadedFiles s + 1,
                trace := trace s
                  @ concat (map (\<lambda>j. request cfg w filePath (body j) @ [Sleep (retryDelay cfg)])
                      [0..<k - 1])
                  @ request cfg w filePath (body (k - 1)) @ [Increment]\<rparr>)"
      using k by (simp add: ev rounds)
    moreover have "sink_calls
        (concat (map (\<lambda>j. request cfg w filePath (body j) @ [Sleep (retryDelay cfg)]) [0..<k - 1])
         @ request cfg w filePath (body (k - 1)) @ [Increment]) = k"
      using k by (simp add: sink_calls_rounds) (simp add: sink_calls_def)
    ultimately show "\<exists>ev. uploadFile cfg w filePath 0 s =
                 (True, s\<lparr>uploadedFiles := uploadedFiles s + 1, trace := trace s @ ev\<rparr>) \<and>
              ev = concat (map (\<lambda>j. request cfg w filePath (body j) @ [Sleep (retryDelay cfg)])
                             [0..<k - 1])
                   @ request cfg w filePath (body (k - 1)) @ [Increment] \<and>
              sink_calls ev = k"
      by blast
  }
qed

text \<open>
  With the default limit of three retries: four requests against a bucket that always
  rejects, three against one that rejects twice.
\<close>

theorem uploadFile_retry_bound_witness:
  "0 \<le> retryAttempts ex_cfg \<and>
   (\<exists>s'. uploadFile ex_cfg (ex_world disk_ok sink_down) (ex_file ''a.txt'') 0 zero = (False, s') \<and>
         failedFiles s' = 1 \<and> uploadedFiles s' = 0 \<and> sink_calls (trace s') = 4) \<and>
   (\<exists>s'. uploadFile ex_cfg (ex_world disk_ok sink_flaky) (ex_file ''a.txt'') 0 zero = (True, s') \<and>
         failedFiles s' = 0 \<and> uploadedFiles s' = 1 \<and> sink_calls (trace s') = 3)"
proof -
  have r: "0 \<le> retryAttempts ex_cfg" and r3: "retryAttempts ex_cfg = 3"
    by (simp_all add: ex_cfg_def)
  have rd: "\<forall>j. int j \<le> retryAttempts ex_cfg \<longrightarrow>
      readFileSync (ex_world disk_ok sn) (ex_file ''a.txt'') j = Inr ''data''" for sn
    by (simp add: ex_world_def disk_ok_def)
  have down: "\<forall>j. int j \<le> retryAttempts ex_cfg \<longrightarrow>
      send (ex_world disk_ok sink_down) (ex_file ''a.txt'') j = Some ''SlowDown''"
    by (simp add: ex_world_def sink_down_def)
  have flaky: "1 \<le> (3::nat) \<and> int 3 \<le> retryAttempts ex_cfg \<and>
      (\<forall>j. j < 3 - 1 \<longrightarrow> send (ex_world disk_ok sink_flaky) (ex_file ''a.txt'') j \<noteq> None) \<and>
      send (ex_world disk_ok sink_flaky) (ex_file ''a.txt'') (3 - 1) = None"
    by (simp add: ex_world_def sink_flaky_def r3)
  note down_case =
    uploadFile_retry_bound [where cfg = ex_cfg and w = "ex_world disk_ok sink_down"
      and filePath = "ex_file ''a.txt''" and body = "\<lambda>j. ''data''"
      and msg = "\<lambda>j. ''SlowDown''" and s = zero, OF r rd, THEN conjunct1, THEN mp, OF down]
  note flaky_case =
    uploadFile_retry_bound [where cfg = ex_cfg and w = "ex_world disk_ok sink_flaky"
      and filePath = "ex_file ''a.txt''" and body = "\<lambda>j. ''data''"
      and s = zero, OF r rd, THEN conjunct2, THEN spec [where x = "3::nat"], THEN mp, OF flaky]
  from down_case
  have 1: "\<exists>s'. uploadFile ex_cfg (ex_world disk_ok sink_down) (ex_file ''a.txt'') 0 zero = (False, s') \<and>
         failedFiles s' = 1 \<and> uploadedFiles s' = 0 \<and> sink_calls (trace s') = 4"
    by (auto simp: zero_def r3)
  from flaky_case
  have 2: "\<exists>s'. uploadFile ex_cfg (ex_world disk_ok sink_flaky) (ex_file ''a.txt'') 0 zero = (True, s') \<and>
         failedFiles s' = 0 \<and> uploadedFiles s' = 1 \<and> sink_calls (trace s') = 3"
    by (auto simp: zero_def)
  from r 1 2 show ?thesis by blast
qed

section \<open>The batches\<close>

lemma slice_window:
  "0 \<le> i \<Longrightarrow> 0 < b \<Longrightarrow> slice xs i (i + b) = take (nat b) (drop (nat i) xs)"
  by (auto simp: slice_def Let_def min_def nat_diff_distrib' nat_add_distrib)

lemma consecutive_groups_Nil [simp]: "consecutive_groups c [] = []"
  by (simp add: consecutive_groups.simps)

lemma batches_from_groups:
  assumes "0 < b"
  shows "batches_from b files (int m) acc = Some (acc @ consecutive_groups (nat b) (drop m files))"
proof (induction "length files - m" arbitrary: m acc rule: less_induct)
  case less
  show ?case
  proof (cases "m < length files")
    case False
    then show ?thesis
      by (subst batches_from.simps) simp
  next
    case True
    have step: "int m + b = int (m + nat b)" using assms by simp
    have "length files - (m + nat b) < length files - m"
      using True assms by auto
    from less [OF this, of "acc @ [slice files (int m) (int m + b)]"]
    have "batches_from b files (int m + b) (acc @ [slice files (int m) (int m + b)]) =
          Some ((acc @ [slice files (int m) (int m + b)])
                  @ consecutive_groups (nat b) (drop (m + nat b) files))"
      by (simp only: step)
    moreover have "consecutive_groups (nat b) (drop m files) =
        take (nat b) (drop m files) # consecutive_groups (nat b) (drop (m + nat b) files)"
      using True assms by (subst consecutive_groups.simps) (simp add: add.commute)
    ultimately show ?thesis
      using True assms by (subst batches_from.simps) (simp add: slice_window)
  qed
qed

lemma make_batches_groups:
  "0 < concurrency cfg \<Longrightarrow>
   make_batches cfg files = Some (consecutive_groups (nat (concurrency cfg)) files)"
  using batches_from_groups [of "concurrency cfg" files 0 "[]"]
  by (simp add: make_batches_def)

lemma concat_groups: "0 < c \<Longrightarrow> concat (consecutive_groups c xs) = xs"
proof (induction c xs rule: consecutive_groups.induct)
  case (1 c xs)
  then show ?case
    by (subst consecutive_groups.simps) auto
qed

lemma groups_nonempty: "[] \<notin> set (consecutive_groups c xs)"
proof (induction c xs rule: consecutive_groups.induct)
  case (1 c xs)
  then show ?case
    by (subst consecutive_groups.simps) auto
qed


lemma batches_from_ends:
  "batches_from b files i acc = Some bs \<Longrightarrow> i < int (length files) \<longrightarrow> 0 < b"
proof (erule batches_from.raw_induct [rotated], rule impI)
  fix f :: "int \<Rightarrow> 'a list \<Rightarrow> int \<Rightarrow> 'a list list \<Rightarrow> 'a list list option"
  fix batchSize files i batches y
  assume IH: "\<And>b fs j acc r. f b fs j acc = Some r \<Longrightarrow> j < int (length fs) \<longrightarrow> 0 < b"
    and eq: "(if i < int (length files)
              then f batchSize files (i + batchSize) (batches @ [slice files i (i + batchSize)])
              else Some batches) = Some y"
    and lt: "i < int (length files)"
  from eq lt
  have "f batchSize files (i + batchSize) (batches @ [slice files i (i + batchSize)]) = Some y"
    by simp
  from IH [OF this] lt show "0 < batchSize"
    by (cases "0 < batchSize") auto
qed

lemma groups_wf: "0 < c \<Longrightarrow> list_all (\<lambda>b. length b \<le> c) (consecutive_groups c xs)"
proof (induction c xs rule: consecutive_groups.induct)
  case (1 c xs)
  then show ?case
    by (subst consecutive_groups.simps) auto
qed

lemma groups_butlast:
  "0 < c \<Longrightarrow> list_all (\<lambda>b. length b = c) (butlast (consecutive_groups c xs))"
proof (induction c xs rule: consecutive_groups.induct)
  case (1 c xs)
  show ?case
  proof (cases "c \<le> length xs")
    case True
    with 1 show ?thesis
      by (subst consecutive_groups.simps) (auto simp: min_def)
  next
    case False
    then have "drop c xs = []" by simp
    with 1 show ?thesis
      by (subst consecutive_groups.simps) simp
  qed
qed

section \<open>The scheduler: what every state satisfies\<close>

lemma catch_block_done:
  "catch_block cfg f k m s = (u, s') \<Longrightarrow> done_files s' = done_files s + tick u \<and> \<not> is_inflight u"
  by (auto simp: catch_block_def done_files_def tick_def give_up_def emit_def split: if_splits)

lemma before_await_done:
  "before_await cfg w f k s = (r, s') \<Longrightarrow> done_files s' = done_files s"
  by (auto simp: before_await_def done_files_def emit_def split: sum.splits)

lemma start_attempt_done:
  "start_attempt cfg w f k s = (u, s') \<Longrightarrow> done_files s' = done_files s + tick u"
  by (auto simp: start_attempt_def tick_def split: prod.splits sum.splits
      dest!: before_await_done catch_block_done)

lemma resume_done:
  "resume cfg w f u s = (u', s') \<Longrightarrow> \<not> is_settled u \<Longrightarrow> done_files s' = done_files s + tick u'"
  by (cases u)
     (auto simp: resume_def after_await_def done_files_def emit_def tick_def
        split: prod.splits option.splits
        dest!: catch_block_done start_attempt_done)

lemma dispatch_done:
  "dispatch cfg w b s = (act, s') \<Longrightarrow>
   map fst act = b \<and> done_files s' = done_files s + settled_count act"
proof (induction b arbitrary: s act s')
  case Nil
  then show ?case by (simp add: settled_count_def)
next
  case (Cons f b)
  obtain u s1 where st: "start_attempt cfg w f 0 s = (u, s1)" by fastforce
  obtain us s2 where ds: "dispatch cfg w b s1 = (us, s2)" by fastforce
  from Cons.prems st ds have act: "act = (f, u) # us" and s': "s' = s2" by auto
  from Cons.IH [OF ds] start_attempt_done [OF st] show ?case
    by (simp add: act s' settled_count_def tick_def)
qed

lemma settled_count_update:
  "p < length act \<Longrightarrow> act ! p = (f, u) \<Longrightarrow> \<not> is_settled u \<Longrightarrow>
   settled_count (act[p := (f, u')]) = settled_count act + tick u'"
proof (induction act arbitrary: p)
  case Nil
  then show ?case by simp
next
  case (Cons a act)
  then show ?case
    by (cases p) (auto simp: settled_count_def tick_def)
qed

lemma settled_count_all:
  "list_all (\<lambda>(f, u). is_settled u) act \<Longrightarrow> settled_count act = length act"
  by (induction act) (auto simp: settled_count_def)

lemma settled_count_le: "settled_count act \<le> length act"
  by (simp add: settled_count_def)

lemma wf_groups_Cons:
  "wf_groups c (b # q) \<Longrightarrow> wf_groups c q \<and> length b \<le> c \<and> (q \<noteq> [] \<longrightarrow> length b = c)"
  by (cases "q = []") (auto simp: wf_groups_def)

lemma advance_inv:
  "inv c n fin act q s \<Longrightarrow> sinv c n (advance cfg w fin act q s)"
proof (induction cfg w fin act q s rule: advance.induct)
  case (1 cfg w fin act s)
  then show ?case by (simp add: sinv_def)
next
  case (2 cfg w fin act batch rest s)
  show ?case
  proof (cases "list_all (\<lambda>(f, u). is_settled u) act")
    case False
    with "2.prems" show ?thesis by (simp add: sinv_def)
  next
    case True
    obtain act' s' where ds: "dispatch cfg w batch s = (act', s')" by fastforce
    from dispatch_done [OF ds] have fst: "map fst act' = batch"
      and dn: "done_files s' = done_files s + settled_count act'" by auto
    from fst have len: "length act' = length batch" by (metis length_map)
    from "2.prems" have wf: "wf_groups c rest" "length batch \<le> c" "rest \<noteq> [] \<longrightarrow> length batch = c"
      using wf_groups_Cons [of c batch rest] by (auto simp: inv_def)
    have "inv c n (fin @ map (\<lambda>(f, u). result u) act) act' rest s'"
      using "2.prems" wf len dn settled_count_all [OF True]
      by (auto simp: inv_def)
    from "2.IH" [OF True ds [symmetric] refl this] show ?thesis
      using True ds by simp
  qed
qed

lemma step_inv:
  assumes "sinv c n sc" and "step cfg w i sc = Some sc'"
  shows "sinv c n sc'"
proof -
  let ?p = "i - length (finished sc)"
  from assms(2) have p: "?p < length (active sc)"
    by (auto simp: step_def Let_def split: if_splits)
  obtain f u where fu: "active sc ! ?p = (f, u)" by fastforce
  from assms(2) p fu have ns: "\<not> is_settled u"
    by (auto simp: step_def Let_def split: if_splits)
  obtain u' s' where rs: "resume cfg w f u (tally sc) = (u', s')" by fastforce
  from assms(2) p fu ns rs
  have sc': "sc' = advance cfg w (finished sc) ((active sc)[?p := (f, u')]) (queue sc) s'"
    by (auto simp: step_def Let_def split: if_splits)
  have "inv c n (finished sc) ((active sc)[?p := (f, u')]) (queue sc) s'"
    using assms(1) resume_done [OF rs ns] settled_count_update [OF p fu ns, of u'] p
    by (auto simp: sinv_def inv_def)
  then show ?thesis unfolding sc' by (rule advance_inv)
qed

lemma exec_inv:
  "sinv c n sc \<Longrightarrow> exec cfg w sch sc = Some sc' \<Longrightarrow> sinv c n sc'"
proof (induction sch arbitrary: sc)
  case Nil
  then show ?case by simp
next
  case (Cons i sch)
  then show ?case
    by (auto split: option.splits dest: step_inv)
qed

lemma start_inv:
  assumes "0 < concurrency cfg" and "processBatch_start cfg w files = Some sc0"
  shows "sinv (nat (concurrency cfg)) (length files) sc0"
proof -
  let ?c = "nat (concurrency cfg)"
  let ?bs = "consecutive_groups ?c files"
  have c: "0 < ?c" using assms(1) by simp
  from assms have sc0: "sc0 = advance cfg w [] [] ?bs zero"
    by (simp add: processBatch_start_def make_batches_groups)
  have "inv ?c (length files) [] [] ?bs zero"
    using groups_wf [OF c, of files] groups_butlast [OF c, of files] concat_groups [OF c, of files]
    by (simp add: inv_def wf_groups_def done_files_def zero_def settled_count_def)
  then show ?thesis unfolding sc0 by (rule advance_inv)
qed

lemma sinv_done_le: "sinv c n sc \<Longrightarrow> done_files (tally sc) \<le> n"
  using settled_count_le [of "active sc"] by (auto simp: sinv_def inv_def)

lemma sinv_done_complete: "sinv c n sc \<Longrightarrow> complete sc \<Longrightarrow> done_files (tally sc) = n"
  by (auto simp: sinv_def inv_def complete_def settled_count_all)


lemma statuses_started:
  "statuses sc = started (finished sc) (active sc) @ replicate (length (concat (queue sc))) None"
  by (simp add: statuses_def started_def)

lemma sinv_length_statuses: "sinv c n sc \<Longrightarrow> length (statuses sc) = n"
  by (simp add: statuses_def sinv_def inv_def)


section \<open>The scheduler: every run ends\<close>

lemma catch_block_work:
  "catch_block cfg f k m s = (u, s') \<Longrightarrow> work cfg u \<le> 2 * (nat (retryAttempts cfg) - k) + 1"
  by (auto simp: catch_block_def split: if_splits)

lemma start_attempt_work:
  "start_attempt cfg w f k s = (u, s') \<Longrightarrow> work cfg u \<le> 2 * (nat (retryAttempts cfg) - k) + 2"
  by (auto simp: start_attempt_def split: prod.splits sum.splits dest!: catch_block_work)

lemma resume_work:
  "resume cfg w f u s = (u', s') \<Longrightarrow> \<not> is_settled u \<Longrightarrow> work cfg u' < work cfg u"
proof (cases u)
  case (InFlight k)
  assume "resume cfg w f u s = (u', s')"
  with InFlight show ?thesis
    by (auto simp: resume_def split: prod.splits option.splits dest!: catch_block_work)
next
  case (Sleeping k)
  assume "resume cfg w f u s = (u', s')"
  with Sleeping have "start_attempt cfg w f (Suc k) s = (u', s')"
    by (simp add: resume_def)
  from start_attempt_work [OF this] Sleeping show ?thesis by simp
next
  case (Settled b)
  assume "\<not> is_settled u"
  with Settled show ?thesis by simp
qed

lemma dispatch_load:
  "dispatch cfg w b s = (act, s') \<Longrightarrow> load cfg act \<le> length b * bound cfg"
proof (induction b arbitrary: s act s')
  case Nil
  then show ?case by (simp add: load_def)
next
  case (Cons f b)
  obtain u s1 where st: "start_attempt cfg w f 0 s = (u, s1)" by fastforce
  obtain us s2 where ds: "dispatch cfg w b s1 = (us, s2)" by fastforce
  from Cons.prems st ds have act: "act = (f, u) # us" by auto
  from Cons.IH [OF ds] start_attempt_work [OF st] show ?case
    by (simp add: act load_def bound_def)
qed

lemma load_settled: "list_all (\<lambda>(f, u). is_settled u) act \<Longrightarrow> load cfg act = 0"
proof (induction act)
  case Nil
  then show ?case by (simp add: load_def)
next
  case (Cons a act)
  obtain f u where a: "a = (f, u)" by fastforce
  from Cons a show ?case by (cases u) (simp_all add: load_def)
qed

lemma advance_remaining:
  "remaining cfg (advance cfg w fin act q s) \<le> load cfg act + length (concat q) * bound cfg"
proof (induction cfg w fin act q s rule: advance.induct)
  case (1 cfg w fin act s)
  show ?case by (simp add: remaining_def)
next
  case (2 cfg w fin act batch rest s)
  show ?case
  proof (cases "list_all (\<lambda>(f, u). is_settled u) act")
    case False
    then show ?thesis by (simp add: remaining_def)
  next
    case True
    obtain act' s' where ds: "dispatch cfg w batch s = (act', s')" by fastforce
    from "2.IH" [OF True ds [symmetric] refl] dispatch_load [OF ds]
    show ?thesis
      using True ds by (simp add: add_mult_distrib)
  qed
qed

lemma load_update:
  "p < length act \<Longrightarrow> act ! p = (f, u) \<Longrightarrow> work cfg u' < work cfg u \<Longrightarrow>
   load cfg (act[p := (f, u')]) < load cfg act"
proof (induction act arbitrary: p)
  case Nil
  then show ?case by simp
next
  case (Cons a act)
  show ?case
  proof (cases p)
    case 0
    with Cons.prems show ?thesis by (simp add: load_def)
  next
    case (Suc p')
    with Cons.prems have "load cfg (act[p' := (f, u')]) < load cfg act"
      by (intro Cons.IH) simp_all
    with Suc show ?thesis by (simp add: load_def)
  qed
qed

lemma step_unfold:
  assumes "step cfg w i sc = Some sc'"
  obtains p f u u' s' where "i = length (finished sc) + p" and "p < length (active sc)"
    and "active sc ! p = (f, u)" and "\<not> is_settled u"
    and "resume cfg w f u (tally sc) = (u', s')"
    and "sc' = advance cfg w (finished sc) ((active sc)[p := (f, u')]) (queue sc) s'"
proof -
  let ?p = "i - length (finished sc)"
  from assms have p: "?p < length (active sc)" and i: "length (finished sc) \<le> i"
    by (auto simp: step_def Let_def split: if_splits)
  obtain f u where fu: "active sc ! ?p = (f, u)" by fastforce
  from assms p i fu have ns: "\<not> is_settled u"
    by (auto simp: step_def Let_def split: if_splits)
  obtain u' s' where rs: "resume cfg w f u (tally sc) = (u', s')" by fastforce
  from assms p i fu ns rs
  have "sc' = advance cfg w (finished sc) ((active sc)[?p := (f, u')]) (queue sc) s'"
    by (auto simp: step_def Let_def split: if_splits)
  with that [of ?p f u u' s'] i p fu ns rs show thesis by simp
qed

lemma step_remaining:
  assumes "step cfg w i sc = Some sc'"
  shows "remaining cfg sc' < remaining cfg sc"
proof -
  from assms obtain p f u u' s' where p: "p < length (active sc)"
    and fu: "active sc ! p = (f, u)" and ns: "\<not> is_settled u"
    and rs: "resume cfg w f u (tally sc) = (u', s')"
    and sc': "sc' = advance cfg w (finished sc) ((active sc)[p := (f, u')]) (queue sc) s'"
    by (rule step_unfold)
  from load_update [OF p fu resume_work [OF rs ns]]
  have "load cfg ((active sc)[p := (f, u')]) < load cfg (active sc)" .
  with advance_remaining [of cfg w "finished sc" "(active sc)[p := (f, u')]" "queue sc" s']
  show ?thesis unfolding sc' by (simp add: remaining_def)
qed

lemma exec_remaining:
  "exec cfg w sch sc = Some sc' \<Longrightarrow> length sch + remaining cfg sc' \<le> remaining cfg sc"
proof (induction sch arbitrary: sc)
  case Nil
  then show ?case by simp
next
  case (Cons i sch)
  from Cons.prems obtain sc1 where st: "step cfg w i sc = Some sc1"
    and ex: "exec cfg w sch sc1 = Some sc'"
    by (auto split: option.splits)
  from Cons.IH [OF ex] step_remaining [OF st] show ?case by simp
qed

lemma step_enabled:
  assumes "p < length (active sc)" and "\<not> is_settled (snd (active sc ! p))"
  shows "\<exists>sc'. step cfg w (length (finished sc) + p) sc = Some sc'"
  using assms by (auto simp: step_def Let_def split: prod.splits)

lemma not_complete_enabled:
  assumes "sinv c n sc" and "\<not> complete sc"
  shows "\<exists>i sc'. step cfg w i sc = Some sc'"
proof -
  from assms have "\<not> list_all (\<lambda>(f, u). is_settled u) (active sc)"
    by (auto simp: sinv_def complete_def)
  then have "\<exists>p<length (active sc). \<not> is_settled (snd (active sc ! p))"
    by (simp add: list_all_length case_prod_beta)
  then obtain p where p: "p < length (active sc)"
    and ns: "\<not> is_settled (snd (active sc ! p))"
    by (elim exE conjE)
  from step_enabled [OF p ns] show ?thesis by blast
qed

lemma run_completes:
  assumes "sinv c n sc"
  shows "\<exists>sch sc'. exec cfg w sch sc = Some sc' \<and> complete sc'"
  using assms
proof (induction "remaining cfg sc" arbitrary: sc rule: less_induct)
  case less
  show ?case
  proof (cases "complete sc")
    case True
    then have "exec cfg w [] sc = Some sc \<and> complete sc" by simp
    then show ?thesis by blast
  next
    case False
    from not_complete_enabled [OF less.prems False]
    obtain i sc1 where st: "step cfg w i sc = Some sc1" by blast
    from less.hyps [OF step_remaining [OF st] step_inv [OF less.prems st]]
    obtain sch sc' where "exec cfg w sch sc1 = Some sc'" "complete sc'" by blast
    with st have "exec cfg w (i # sch) sc = Some sc' \<and> complete sc'" by simp
    then show ?thesis by blast
  qed
qed

lemma started_advance:
  "take (length fin + length act) (statuses (advance cfg w fin act q s)) = started fin act"
proof (induction cfg w fin act q s rule: advance.induct)
  case (1 cfg w fin act s)
  show ?case by (simp add: statuses_def started_def)
next
  case (2 cfg w fin act batch rest s)
  show ?case
  proof (cases "list_all (\<lambda>(f, u). is_settled u) act")
    case False
    then show ?thesis by (simp add: statuses_def started_def)
  next
    case True
    obtain act' s' where ds: "dispatch cfg w batch s = (act', s')" by fastforce
    let ?fin' = "fin @ map (\<lambda>(f, u). result u) act"
    let ?st = "statuses (advance cfg w ?fin' act' rest s')"
    from "2.IH" [OF True ds [symmetric] refl]
    have IH: "take (length ?fin' + length act') ?st = started ?fin' act'" .
    have "take (length fin + length act) ?st =
          take (length fin + length act) (take (length ?fin' + length act') ?st)"
      by (simp add: min_def)
    also have "\<dots> = take (length fin + length act) (started ?fin' act')"
      by (simp only: IH)
    also have "\<dots> = map (\<lambda>b. Some (Settled b)) ?fin'"
      by (simp add: started_def)
    also have "\<dots> = started fin act"
      using True
    proof (induction act)
      case Nil
      then show ?case by (simp add: started_def)
    next
      case (Cons a act)
      obtain f u where a: "a = (f, u)" by fastforce
      from Cons a show ?case by (cases u) (simp_all add: started_def)
    qed
    finally show ?thesis using True ds by simp
  qed
qed

lemma step_isolated:
  assumes "step cfg w i sc = Some sc'" and "j \<noteq> i"
      and "j < length (finished sc) + length (active sc)"
  shows "statuses sc' ! j = statuses sc ! j"
proof -
  from assms(1) obtain p f u u' s' where i: "i = length (finished sc) + p"
    and p: "p < length (active sc)"
    and sc': "sc' = advance cfg w (finished sc) ((active sc)[p := (f, u')]) (queue sc) s'"
    by (rule step_unfold)
  let ?act' = "(active sc)[p := (f, u')]"
  let ?m = "length (finished sc) + length (active sc)"
  have "statuses sc' ! j = take ?m (statuses sc') ! j"
    using assms(3) by simp
  also have "take ?m (statuses sc') = started (finished sc) ?act'"
    using started_advance [of "finished sc" ?act' cfg w "queue sc" s'] by (simp add: sc')
  also have "started (finished sc) ?act' ! j = started (finished sc) (active sc) ! j"
    using assms(2,3) i p by (auto simp: started_def nth_append nth_list_update)
  also have "\<dots> = statuses sc ! j"
  proof -
    have "length (started (finished sc) (active sc)) = ?m"
      by (simp add: started_def)
    with assms(3) show ?thesis
      by (simp add: statuses_started nth_append)
  qed
  finally show ?thesis .
qed

section \<open>The counters\<close>

lemma during_SomeD:
  assumes "during cfg w folders sch = Some (totalFiles, sc)"
  shows "totalFiles = length (allFiles (getAllFiles cfg w folders)) \<and>
         sinv (nat (concurrency cfg)) totalFiles sc"
proof -
  let ?files = "allFiles (getAllFiles cfg w folders)"
  from assms have ne: "?files \<noteq> []" and tf: "totalFiles = length ?files"
    by (auto simp: during_def Let_def split: if_splits option.splits)
  from assms obtain sc0 where st: "processBatch_start cfg w ?files = Some sc0"
    and ex: "exec cfg w sch sc0 = Some sc"
    by (auto simp: during_def Let_def split: if_splits option.splits)
  from st obtain bs where "batches_from (concurrency cfg) ?files 0 [] = Some bs"
    by (auto simp: processBatch_start_def make_batches_def split: option.splits)
  from batches_from_ends [OF this] ne have c: "0 < concurrency cfg" by simp
  from exec_inv [OF start_inv [OF c st] ex] tf show ?thesis by simp
qed

text \<open>
  Claim C1.  At every point of a run the counters satisfy
  \<open>uploadedFiles + failedFiles \<le> totalFiles\<close>, where \<open>totalFiles\<close> is the number of
  files the scan returned; when every call has settled the two sides are equal, and so
  they are in the summary that \<open>main\<close> prints.
\<close>

theorem counters_total:
  "(\<forall>totalFiles sc. during cfg w folders sch = Some (totalFiles, sc) \<longrightarrow>
      totalFiles = length (allFiles (getAllFiles cfg w folders)) \<and>
      uploadedFiles (tally sc) + failedFiles (tally sc) \<le> totalFiles \<and>
      (complete sc \<longrightarrow> uploadedFiles (tally sc) + failedFiles (tally sc) = totalFiles)) \<and>
   (\<forall>r. main cfg w folders sch = Some (Summary r) \<longrightarrow>
      reportTotal r = length (allFiles (getAllFiles cfg w folders)) \<and>
      reportUploaded r + reportFailed r = reportTotal r)"
proof (intro conjI allI impI)
  fix totalFiles sc
  assume d: "during cfg w folders sch = Some (totalFiles, sc)"
  from during_SomeD [OF d]
  have tf: "totalFiles = length (allFiles (getAllFiles cfg w folders))"
    and iv: "sinv (nat (concurrency cfg)) totalFiles sc" by blast+
  from tf show "totalFiles = length (allFiles (getAllFiles cfg w folders))" .
  from sinv_done_le [OF iv]
  show "uploadedFiles (tally sc) + failedFiles (tally sc) \<le> totalFiles"
    by (simp add: done_files_def)
  assume "complete sc"
  from sinv_done_complete [OF iv this]
  show "uploadedFiles (tally sc) + failedFiles (tally sc) = totalFiles"
    by (simp add: done_files_def)
next
  fix r
  assume m: "main cfg w folders sch = Some (Summary r)"
  then obtain totalFiles sc where d: "during cfg w folders sch = Some (totalFiles, sc)"
    and c: "complete sc"
    and r: "reportTotal r = totalFiles" "reportUploaded r = uploadedFiles (tally sc)"
      "reportFailed r = failedFiles (tally sc)"
    by (auto simp: main_def Let_def split: if_splits option.splits prod.splits)
  from during_SomeD [OF d]
  have tf: "totalFiles = length (allFiles (getAllFiles cfg w folders))"
    and iv: "sinv (nat (concurrency cfg)) totalFiles sc" by blast+
  from tf r show "reportTotal r = length (allFiles (getAllFiles cfg w folders))" by simp
  from sinv_done_complete [OF iv c] r
  show "reportUploaded r + reportFailed r = reportTotal r"
    by (simp add: done_files_def)
qed

text \<open>
  The example tree has three files and the bucket rejects one of them: after two events
  two files are counted, and the summary counts all three.
\<close>

theorem counters_total_witness:
  "(\<exists>sc. during ex_cfg (ex_world disk_ok (sink_rejects (ex_file ''c.css''))) FOLDERS_TO_UPLOAD [1, 0]
           = Some (3, sc) \<and>
         \<not> complete sc \<and> uploadedFiles (tally sc) + failedFiles (tally sc) \<le> 3) \<and>
   (\<exists>r. main ex_cfg (ex_world disk_ok (sink_rejects (ex_file ''c.css''))) FOLDERS_TO_UPLOAD
           [1, 0, 2, 2, 2, 2, 2, 2, 2] = Some (Summary r) \<and>
        reportTotal r = 3 \<and> reportUploaded r + reportFailed r = reportTotal r)"
proof -
  let ?w = "ex_world disk_ok (sink_rejects (ex_file ''c.css''))"
  have "case during ex_cfg ?w FOLDERS_TO_UPLOAD [1, 0] of
          None \<Rightarrow> False | Some (n, sc) \<Rightarrow> n = 3 \<and> \<not> complete sc"
    by code_simp
  then obtain sc where d: "during ex_cfg ?w FOLDERS_TO_UPLOAD [1, 0] = Some (3, sc)"
    and nc: "\<not> complete sc"
    by (auto split: option.splits)
  have "case main ex_cfg ?w FOLDERS_TO_UPLOAD [1, 0, 2, 2, 2, 2, 2, 2, 2] of
          Some (Summary r) \<Rightarrow> reportTotal r = 3 | _ \<Rightarrow> False"
    by code_simp
  then obtain r where m: "main ex_cfg ?w FOLDERS_TO_UPLOAD [1, 0, 2, 2, 2, 2, 2, 2, 2] = Some (Summary r)"
    and t: "reportTotal r = 3"
    by (auto split: option.splits ending.splits)
  from counters_total [of ex_cfg ?w FOLDERS_TO_UPLOAD "[1, 0]"] d
  have "uploadedFiles (tally sc) + failedFiles (tally sc) \<le> 3" by blast
  moreover
  from counters_total [of ex_cfg ?w FOLDERS_TO_UPLOAD "[1, 0, 2, 2, 2, 2, 2, 2, 2]"] m
  have "reportUploaded r + reportFailed r = reportTotal r" by blast
  ultimately show ?thesis using d nc m t by blast
qed

section \<open>Batches and the barrier between them\<close>



section \<open>Read failures\<close>

lemma is_read_rounds:
  "(\<And>j. j \<in> set js \<Longrightarrow> length (filter is_read (ev j)) = 1) \<Longrightarrow>
   length (filter is_read (concat (map (\<lambda>j. ev j @ [Sleep d]) js))) = length js"
  by (induction js) simp_all

lemma attempt_events_reads: "length (filter is_read (attempt_events cfg w f j)) = 1"
  by (simp add: attempt_events_def request_def split: sum.splits)

text \<open>
  Claim C10.  The \<open>catch\<close> block does not ask where the error came from.  When every
  attempt fails, at the read or at the request, the call reads the file again in every
  one of its \<open>retryAttempts + 1\<close> attempts, waits \<open>retryDelay\<close> between two attempts and
  counts the file as failed once.  An attempt whose read fails consists of the read alone;
  one whose read succeeds issues a request with the key and the content type computed in
  that attempt.  When every read fails no request is made at all.
\<close>

theorem read_failure_retried:
  assumes "0 \<le> retryAttempts cfg"
      and "\<forall>j. int j \<le> retryAttempts cfg \<longrightarrow> failure w filePath j = Some (msg j)"
  shows "\<exists>ev.
     uploadFile cfg w filePath 0 s =
       (False, s\<lparr>failedFiles := failedFiles s + 1, trace := trace s @ ev\<rparr>) \<and>
     ev = concat (map (\<lambda>j. attempt_events cfg w filePath j @ [Sleep (retryDelay cfg)])
                    [0..<nat (retryAttempts cfg)])
          @ attempt_events cfg w filePath (nat (retryAttempts cfg))
          @ [Increment, ErrorLog filePath (msg (nat (retryAttempts cfg)))] \<and>
     length (filter is_read ev) = nat (retryAttempts cfg) + 1 \<and>
     (\<forall>j. attempt_events cfg w filePath j =
        (case readFileSync w filePath j of
           Inl m \<Rightarrow> [ReadFile filePath]
         | Inr body \<Rightarrow>
             [ReadFile filePath,
              PutObject (bucketName cfg) (s3Key (os w) (baseDir cfg) filePath) body
                (getContentType filePath)])) \<and>
     ((\<forall>j. int j \<le> retryAttempts cfg \<longrightarrow> (\<exists>m. readFileSync w filePath j = Inl m)) \<longrightarrow>
        sink_calls ev = 0 \<and>
        ev = concat (map (\<lambda>j. [ReadFile filePath, Sleep (retryDelay cfg)])
                       [0..<nat (retryAttempts cfg)])
             @ [ReadFile filePath, Increment,
                ErrorLog filePath (msg (nat (retryAttempts cfg)))])"
proof -
  let ?r = "nat (retryAttempts cfg)"
  let ?ev = "concat (map (\<lambda>j. attempt_events cfg w filePath j @ [Sleep (retryDelay cfg)])
                    [0..<?r])
          @ attempt_events cfg w filePath ?r @ [Increment, ErrorLog filePath (msg ?r)]"
  have la: "last_attempt cfg 0 = ?r"
    by (simp add: last_attempt_def)
  have "\<And>j. 0 \<le> j \<Longrightarrow> j \<le> last_attempt cfg 0 \<Longrightarrow> failure w filePath j = Some (msg j)"
    using assms by (simp add: la)
  then have "uploadFile cfg w filePath 0 s =
     (False, s\<lparr>failedFiles := failedFiles s + 1,
               trace := trace s
                 @ concat (map (\<lambda>j. attempt_events cfg w filePath j @ [Sleep (retryDelay cfg)])
                     [0..<last_attempt cfg 0])
                 @ attempt_events cfg w filePath (last_attempt cfg 0)
                 @ [Increment, ErrorLog filePath (msg (last_attempt cfg 0))]\<rparr>)"
    by (rule uploadFile_fails_from)
  then have up: "uploadFile cfg w filePath 0 s =
       (False, s\<lparr>failedFiles := failedFiles s + 1, trace := trace s @ ?ev\<rparr>)"
    by (simp only: la)
  have reads: "length (filter is_read ?ev) = ?r + 1"
    by (simp add: is_read_rounds attempt_events_reads)
  have shape: "attempt_events cfg w filePath j =
        (case readFileSync w filePath j of
           Inl m \<Rightarrow> [ReadFile filePath]
         | Inr body \<Rightarrow>
             [ReadFile filePath,
              PutObject (bucketName cfg) (s3Key (os w) (baseDir cfg) filePath) body
                (getContentType filePath)])" for j
    by (simp add: attempt_events_def request_def split: sum.splits)
  have denied: "sink_calls ?ev = 0 \<and>
        ?ev = concat (map (\<lambda>j. [ReadFile filePath, Sleep (retryDelay cfg)]) [0..<?r])
             @ [ReadFile filePath, Increment, ErrorLog filePath (msg ?r)]"
    if rd: "\<forall>j. int j \<le> retryAttempts cfg \<longrightarrow> (\<exists>m. readFileSync w filePath j = Inl m)"
  proof -
    have ae: "attempt_events cfg w filePath j = [ReadFile filePath]"
      if "int j \<le> retryAttempts cfg" for j
      using rd that by (auto simp: attempt_events_def)
    have rounds: "map (\<lambda>j. attempt_events cfg w filePath j @ [Sleep (retryDelay cfg)]) [0..<?r] =
        map (\<lambda>j. [ReadFile filePath, Sleep (retryDelay cfg)]) [0..<?r]"
      by (rule map_cong) (auto simp: ae)
    have last: "attempt_events cfg w filePath ?r = [ReadFile filePath]"
      using assms(1) by (simp add: ae)
    have eq: "?ev = concat (map (\<lambda>j. [ReadFile filePath, Sleep (retryDelay cfg)]) [0..<?r])
             @ [ReadFile filePath, Increment, ErrorLog filePath (msg ?r)]"
      by (simp add: rounds last)
    have "sink_calls (concat (map (\<lambda>j. [ReadFile filePath] @ [Sleep (retryDelay cfg)]) [0..<?r])) = 0"
      by (rule sink_calls_no_rounds) (simp add: sink_calls_def)
    then have "sink_calls (concat (map (\<lambda>j. [ReadFile filePath, Sleep (retryDelay cfg)]) [0..<?r])
             @ [ReadFile filePath, Increment, ErrorLog filePath (msg ?r)]) = 0"
      by (simp add: sink_calls_def)
    then show ?thesis unfolding eq by (rule conjI) (rule refl)
  qed
  from up reads shape denied show ?thesis by blast
qed

text \<open>A file that cannot be read, with the default limit of three retries.\<close>

theorem read_failure_retried_witness:
  "0 \<le> retryAttempts ex_cfg \<and>
   uploadFile ex_cfg (ex_world disk_denied sink_up) (ex_file ''a.txt'') 0 zero =
     (False,
      \<lparr>uploadedFiles = 0, failedFiles = 1,
       trace = [ReadFile (ex_file ''a.txt''), Sleep 1000, ReadFile (ex_file ''a.txt''), Sleep 1000,
                ReadFile (ex_file ''a.txt''), Sleep 1000, ReadFile (ex_file ''a.txt''),
                Increment, ErrorLog (ex_file ''a.txt'') ''EACCES'']\<rparr>)"
proof -
  let ?w = "ex_world disk_denied sink_up" and ?f = "ex_file ''a.txt''"
  have r: "0 \<le> retryAttempts ex_cfg" and r3: "nat (retryAttempts ex_cfg) = 3"
    and d: "retryDelay ex_cfg = 1000"
    by (simp_all add: ex_cfg_def)
  have fl: "\<forall>j. int j \<le> retryAttempts ex_cfg \<longrightarrow> failure ?w ?f j = Some ''EACCES''"
    by (simp add: failure_def ex_world_def disk_denied_def)
  have rd: "\<forall>j. int j \<le> retryAttempts ex_cfg \<longrightarrow> (\<exists>m. readFileSync ?w ?f j = Inl m)"
    by (simp add: ex_world_def disk_denied_def)
  from read_failure_retried [OF r fl, of zero] rd
  obtain ev where up: "uploadFile ex_cfg ?w ?f 0 zero =
       (False, zero\<lparr>failedFiles := failedFiles zero + 1, trace := trace zero @ ev\<rparr>)"
    and ev: "ev = concat (map (\<lambda>j. [ReadFile ?f, Sleep (retryDelay ex_cfg)])
                       [0..<nat (retryAttempts ex_cfg)])
             @ [ReadFile ?f, Increment, ErrorLog ?f ''EACCES'']"
    by blast
  have "[0..<3] = [0, 1, 2::nat]" by code_simp
  with ev have "ev = [ReadFile ?f, Sleep 1000, ReadFile ?f, Sleep 1000, ReadFile ?f, Sleep 1000,
      ReadFile ?f, Increment, ErrorLog ?f ''EACCES'']"
    by (simp add: r3 d)
  with up r show ?thesis by (simp add: zero_def)
qed

section \<open>Error objects stay inside the call\<close>

lemma complete_statuses:
  assumes "sinv c n sc" and "complete sc" and "i < n"
  shows "\<exists>b. statuses sc ! i = Some (Settled b)"
proof -
  from assms(2) have q: "queue sc = []"
    and all: "list_all (\<lambda>(f, u). is_settled u) (active sc)"
    by (simp_all add: complete_def)
  from assms(1) q have n: "n = length (finished sc) + length (active sc)"
    by (simp add: sinv_def inv_def)
  show ?thesis
  proof (cases "i < length (finished sc)")
    case True
    then show ?thesis by (simp add: statuses_def nth_append)
  next
    case False
    let ?p = "i - length (finished sc)"
    from False assms(3) n have p: "?p < length (active sc)" by simp
    obtain f u where fu: "active sc ! ?p = (f, u)" by fastforce
    from all p fu have "is_settled u"
      by (auto simp: list_all_length)
    then obtain b where "u = Settled b" by (cases u) simp_all
    with False p fu show ?thesis
      by (simp add: statuses_def nth_append)
  qed
qed

lemma step_defined:
  assumes "i < length (finished sc) + length (active sc)"
      and "statuses sc ! i = Some u" and "\<not> is_settled u"
  shows "\<exists>sc'. step cfg w i sc = Some sc'"
proof -
  have ge: "length (finished sc) \<le> i"
  proof (rule ccontr)
    assume "\<not> length (finished sc) \<le> i"
    with assms(2,3) show False
      by (auto simp: statuses_def nth_append)
  qed
  let ?p = "i - length (finished sc)"
  from ge assms(1) have p: "?p < length (active sc)" by simp
  from ge p assms(2) have "snd (active sc ! ?p) = u"
    by (auto simp: statuses_def nth_append split: prod.splits)
  with assms(3) have "\<not> is_settled (snd (active sc ! ?p))" by simp
  from step_enabled [OF p this, of cfg w] ge show ?thesis by simp
qed

lemma started_index:
  assumes "sinv c n sc" and "i < n" and "statuses sc ! i \<noteq> None"
  shows "i < length (finished sc) + length (active sc)"
proof (rule ccontr)
  assume "\<not> i < length (finished sc) + length (active sc)"
  moreover from assms(1,2) have "i < length (statuses sc)"
    by (simp add: sinv_length_statuses)
  ultimately have "statuses sc ! i = None"
    by (auto simp: statuses_def nth_append)
  with assms(3) show False by simp
qed

text \<open>
  As long as what the read or the request of a call throws is an \<open>Error\<close> object, it is
  caught in that call: the call goes on to its retry or settles with \<open>false\<close>.  In every
  state of a run, every call that has not settled can take its next event, and the event
  leaves the state of every other task called so far as it was.  From every state the run
  can be brought to its end, where every task has settled with \<open>true\<close> or \<open>false\<close>.
\<close>

lemma failures_isolated:
  assumes "0 < concurrency cfg"
      and "processBatch_start cfg w files = Some sc0"
      and "exec cfg w sch sc0 = Some sc"
  shows "(\<forall>i u. i < length files \<and> statuses sc ! i = Some u \<and> \<not> is_settled u \<longrightarrow>
            (\<exists>sc'. step cfg w i sc = Some sc' \<and>
               (\<forall>j. j \<noteq> i \<and> j < length files \<and> statuses sc ! j \<noteq> None \<longrightarrow>
                    statuses sc' ! j = statuses sc ! j))) \<and>
         (\<exists>rest sc'. exec cfg w rest sc = Some sc' \<and> complete sc' \<and>
            (\<forall>i. i < length files \<longrightarrow> (\<exists>b. statuses sc' ! i = Some (Settled b))))"
proof (intro conjI allI impI)
  let ?c = "nat (concurrency cfg)"
  have iv: "sinv ?c (length files) sc"
    using exec_inv [OF start_inv [OF assms(1,2)] assms(3)] .
  {
    fix i u
    assume a: "i < length files \<and> statuses sc ! i = Some u \<and> \<not> is_settled u"
    then have "statuses sc ! i \<noteq> None" by simp
    from started_index [OF iv _ this] a
    have "i < length (finished sc) + length (active sc)" by simp
    from step_defined [OF this, of u cfg w] a
    obtain sc' where st: "step cfg w i sc = Some sc'" by blast
    have "statuses sc' ! j = statuses sc ! j"
      if "j \<noteq> i \<and> j < length files \<and> statuses sc ! j \<noteq> None" for j
      using step_isolated [OF st, of j] started_index [OF iv, of j] that by simp
    with st show "\<exists>sc'. step cfg w i sc = Some sc' \<and>
               (\<forall>j. j \<noteq> i \<and> j < length files \<and> statuses sc ! j \<noteq> None \<longrightarrow>
                    statuses sc' ! j = statuses sc ! j)"
      by blast
  }
  from run_completes [OF iv, of cfg w]
  obtain rest sc' where ex: "exec cfg w rest sc = Some sc'" and c: "complete sc'" by blast
  have "sinv ?c (length files) sc'"
    using exec_inv [OF iv ex] .
  from complete_statuses [OF this c]
  have "\<forall>i. i < length files \<longrightarrow> (\<exists>b. statuses sc' ! i = Some (Settled b))" by blast
  with ex c show "\<exists>rest sc'. exec cfg w rest sc = Some sc' \<and> complete sc' \<and>
            (\<forall>i. i < length files \<longrightarrow> (\<exists>b. statuses sc' ! i = Some (Settled b)))"
    by blast
qed


text \<open>
  The bucket rejects the first of five files: its call sleeps before the retry, the call
  of the second file is still in flight, and the run can be completed.
\<close>

lemma failures_isolated_example:
  "0 < concurrency ex_cfg \<and>
   (\<exists>sc0 sc'.
      processBatch_start ex_cfg (ex_world disk_ok (sink_rejects (ex_file ''1.txt''))) five_files
        = Some sc0 \<and>
      statuses sc0 = [Some (InFlight 0), Some (InFlight 0), None, None, None] \<and>
      step ex_cfg (ex_world disk_ok (sink_rejects (ex_file ''1.txt''))) 0 sc0 = Some sc' \<and>
      statuses sc' ! 0 = Some (Sleeping 0) \<and>
      statuses sc' ! 1 = Some (InFlight 0) \<and>
      (\<exists>rest sc''.
         exec ex_cfg (ex_world disk_ok (sink_rejects (ex_file ''1.txt''))) rest sc0 = Some sc'' \<and>
         complete sc''))"
proof -
  let ?w = "ex_world disk_ok (sink_rejects (ex_file ''1.txt''))"
  have c: "0 < concurrency ex_cfg" by (simp add: ex_cfg_def)
  have l5: "length five_files = 5" by (simp add: five_files_def)
  have "case processBatch_start ex_cfg ?w five_files of
          None \<Rightarrow> False
        | Some s0 \<Rightarrow>
            statuses s0 = [Some (InFlight 0), Some (InFlight 0), None, None, None] \<and>
            (case step ex_cfg ?w 0 s0 of
               None \<Rightarrow> False
             | Some s1 \<Rightarrow> statuses s1 ! 0 = Some (Sleeping 0))"
    by code_simp
  then obtain sc0 s1 where st: "processBatch_start ex_cfg ?w five_files = Some sc0"
    and ss: "statuses sc0 = [Some (InFlight 0), Some (InFlight 0), None, None, None]"
    and s1: "step ex_cfg ?w 0 sc0 = Some s1" and z: "statuses s1 ! 0 = Some (Sleeping 0)"
    by (auto split: option.splits)
  have ex: "exec ex_cfg ?w [] sc0 = Some sc0" by simp
  note T = failures_isolated [OF c st ex]
  have "0 < length five_files \<and> statuses sc0 ! 0 = Some (InFlight 0) \<and> \<not> is_settled (InFlight 0)"
    by (simp add: l5 ss)
  with T obtain sc' where s': "step ex_cfg ?w 0 sc0 = Some sc'"
    and iso: "\<forall>j. j \<noteq> 0 \<and> j < length five_files \<and> statuses sc0 ! j \<noteq> None \<longrightarrow>
                 statuses sc' ! j = statuses sc0 ! j"
    by blast
  have "(1::nat) \<noteq> 0 \<and> 1 < length five_files \<and> statuses sc0 ! 1 \<noteq> None"
    by (simp add: l5 ss)
  with iso have "statuses sc' ! 1 = statuses sc0 ! 1" by blast
  then have one: "statuses sc' ! 1 = Some (InFlight 0)" by (simp add: ss)
  from s' s1 z have zero': "statuses sc' ! 0 = Some (Sleeping 0)" by simp
  from T obtain rest sc'' where "exec ex_cfg ?w rest sc0 = Some sc''" "complete sc''"
    by blast
  with c st ss s' zero' one show ?thesis by blast
qed

section \<open>The scan\<close>

lemma scan_tree:
  "scanDir dir n st =
     st\<lparr>allFiles := allFiles st @ files_below dir n, console := console st @ errors_below dir n\<rparr>"
  "scanEntries dir es st =
     st\<lparr>allFiles := allFiles st @ files_among dir es, console := console st @ errors_among dir es\<rparr>"
  by (induction dir n st and dir es st rule: scanDir_scanEntries.induct) simp_all

lemma files_among_append:
  "files_among dir (xs @ ys) = files_among dir xs @ files_among dir ys"
proof (induction xs)
  case Nil
  show ?case by simp
next
  case (Cons x xs)
  obtain name n where x: "x = (name, n)" by fastforce
  from Cons show ?case by (cases n) (simp_all add: x)
qed

lemma errors_among_append:
  "errors_among dir (xs @ ys) = errors_among dir xs @ errors_among dir ys"
proof (induction xs)
  case Nil
  show ?case by simp
next
  case (Cons x xs)
  obtain name n where x: "x = (name, n)" by fastforce
  from Cons show ?case by (cases n) (simp_all add: x)
qed

lemma scanEntries_append:
  "scanEntries dir (xs @ ys) st = scanEntries dir ys (scanEntries dir xs st)"
  by (simp add: scan_tree files_among_append errors_among_append)

text \<open>
  Claim C9.  When the loop over a listing meets a directory that cannot be listed, the
  error is logged once and the loop goes on with the entries that follow: the files found
  are those of the listing without that directory.  This holds at every depth, since the
  scan of a node adds to the files found so far exactly the regular files below the
  node, and to the console one error for every directory below it that cannot be listed.
\<close>

theorem unlistable_directory_skipped:
  "scanEntries currentDir (before @ (name, Unlistable) # after) st =
     scanEntries currentDir after
       ((scanEntries currentDir before st)
          \<lparr>console := console (scanEntries currentDir before st)
                        @ [ScanError (path_join currentDir name)]\<rparr>) \<and>
   allFiles (scanEntries currentDir (before @ (name, Unlistable) # after) st) =
     allFiles (scanEntries currentDir (before @ after) st) \<and>
   allFiles (scanDir currentDir n st) = allFiles st @ files_below currentDir n \<and>
   console (scanDir currentDir n st) = console st @ errors_below currentDir n"
proof -
  let ?st = "scanEntries currentDir before st"
  have "scanEntries currentDir (before @ (name, Unlistable) # after) st =
        scanEntries currentDir ((name, Unlistable) # after) ?st"
    by (rule scanEntries_append)
  also have "\<dots> = scanEntries currentDir after
                 (?st\<lparr>console := console ?st @ [ScanError (path_join currentDir name)]\<rparr>)"
    by simp
  finally have goes_on: "scanEntries currentDir (before @ (name, Unlistable) # after) st =
      scanEntries currentDir after
        (?st\<lparr>console := console ?st @ [ScanError (path_join currentDir name)]\<rparr>)" .
  have "files_among currentDir (before @ (name, Unlistable) # after) =
        files_among currentDir (before @ after)"
    by (simp add: files_among_append)
  then have same_files:
    "allFiles (scanEntries currentDir (before @ (name, Unlistable) # after) st) =
     allFiles (scanEntries currentDir (before @ after) st)"
    by (simp add: scan_tree)
  have whole: "allFiles (scanDir currentDir n st) = allFiles st @ files_below currentDir n"
    "console (scanDir currentDir n st) = console st @ errors_below currentDir n"
    by (simp_all add: scan_tree)
  from goes_on same_files whole show ?thesis by blast
qed

text \<open>
  The example tree: the folder \<open>locked\<close> cannot be listed, and the files before and
  after it are found.
\<close>

lemma scan_example:
  "getAllFiles ex_cfg (ex_world disk_ok sink_up) FOLDERS_TO_UPLOAD =
     \<lparr>allFiles = [ex_file ''a.txt'', path_join (ex_file ''img'') ''b.png'', ex_file ''c.css''],
      console = [SkipWarning ''ExamGenrator'', ScanError (ex_file ''locked''),
                 SkipWarning ''Keylinks'']\<rparr>"
  by code_simp










section \<open>Object keys\<close>

lemma fold_case_Posix [simp]: "fold_case Posix = (\<lambda>name. name)"
  by (simp add: fun_eq_iff fold_case_def)

lemma fold_case_Win32 [simp]: "fold_case Win32 = toLowerCase"
  by (simp add: fun_eq_iff fold_case_def)

lemma common_len_prefix: "common_len xs (xs @ ys) = length xs"
  by (induction xs) simp_all

lemma common_len_le: "common_len xs ys \<le> length xs"
  by (induction xs ys rule: common_len.induct) simp_all

lemma common_len_take: "take (common_len xs ys) ys = take (common_len xs ys) xs"
  by (induction xs ys rule: common_len.induct) simp_all

lemma join_with_dots: "take 2 (join_with c (''..'' # xs)) = ''..''"
  by (cases xs) simp_all

lemma replace_backslashes_dots:
  "take 2 s = ''..'' \<Longrightarrow> take 2 (replace_backslashes s) = ''..''"
proof -
  assume a: "take 2 s = ''..''"
  have "take 2 (replace_backslashes s) = replace_backslashes (take 2 s)"
    by (simp add: replace_backslashes_def take_map)
  also have "\<dots> = ''..''"
    by (simp add: a replace_backslashes_def backslash_def)
  finally show ?thesis .
qed

lemma climbs:
  assumes "common_len xs ys < length xs"
  shows "take 2 (join_with c (replicate (length xs - common_len xs ys) ''..'' @ rest)) = ''..''"
proof -
  from assms obtain k where "length xs - common_len xs ys = Suc k"
    by (cases "length xs - common_len xs ys") auto
  then show ?thesis
    by (simp add: join_with_dots)
qed

lemma not_under_cases:
  assumes "\<not> (length xs < length ys \<and> take (length xs) ys = xs)"
  shows "common_len xs ys < length xs \<or> ys = xs"
proof (cases "common_len xs ys < length xs")
  case True
  then show ?thesis by simp
next
  case False
  with common_len_le [of xs ys] have n: "common_len xs ys = length xs" by simp
  with common_len_take [of xs ys] have t: "take (length xs) ys = xs" by simp
  then have "length (take (length xs) ys) = length xs" by simp
  then have le: "length xs \<le> length ys" by simp
  from assms t have "\<not> length xs < length ys" by blast
  with le have len: "length ys = length xs" by simp
  have "ys = take (length xs) ys" using len by simp
  also have "\<dots> = xs" by (rule t)
  finally show ?thesis by simp
qed

lemma join_with_replicate_Nil [simp]: "join_with c (replicate 0 x @ []) = []"
  by simp

text \<open>
  Claim C5 says that the key of a path outside the base directory is refused with
  \<open>InvalidPathError\<close>.  The program has no such error: \<open>path.relative\<close> answers for every
  pair of paths, and a file outside the base directory gets a key that climbs out of it.
\<close>

theorem resolveKey_outside_counterexample:
  "\<not> is_under Posix ex_base ex_outside \<and>
   resolveKey Posix ex_base ex_outside = Inr ''../other/f.txt'' \<and>
   resolveKey Posix ex_base ex_outside \<noteq> Inl InvalidPathError"
  by (simp add: is_under_def fold_case_def ex_base_def ex_outside_def resolveKey_def s3Key_def
      path_relative_def replace_backslashes_def backslash_def)

text \<open>
  Claim C5, amended.  \<open>resolveKey\<close> returns a key for every base directory and every
  path.  For a path that is not below the base directory the key is empty (the path is
  the base directory itself), or begins with \<open>..\<close>, or, for a path on another Windows
  drive, is the whole path of the file with \<open>/\<close> for every backslash.
\<close>

theorem resolveKey_total:
  assumes "\<not> is_under pf base absolutePath"
  shows "\<exists>key. resolveKey pf base absolutePath = Inr key \<and>
           (key = [] \<or> take 2 key = ''..'' \<or>
            (pf = Win32 \<and> toLowerCase (drive absolutePath) \<noteq> toLowerCase (drive base) \<and>
             key = replace_backslashes (render Win32 absolutePath)))"
proof (cases pf)
  case Posix
  let ?xs = "comps base" and ?ys = "comps absolutePath"
  from assms Posix have "\<not> (length ?xs < length ?ys \<and> take (length ?xs) ?ys = ?xs)"
    by (simp add: is_under_def)
  from not_under_cases [OF this] show ?thesis
  proof
    assume "common_len ?xs ?ys < length ?xs"
    from climbs [OF this, of "CHR ''/''" "drop (common_len ?xs ?ys) ?ys"]
    show ?thesis
      by (simp add: resolveKey_def s3Key_def path_relative_def Let_def Posix replace_backslashes_dots)
  next
    assume "?ys = ?xs"
    then show ?thesis
      by (simp add: resolveKey_def s3Key_def path_relative_def Let_def Posix common_len_prefix [of _ "[]", simplified]
          replace_backslashes_def)
  qed
next
  case Win32
  let ?xs = "map toLowerCase (comps base)" and ?ys = "map toLowerCase (comps absolutePath)"
  show ?thesis
  proof (cases "toLowerCase (drive base) = toLowerCase (drive absolutePath)")
    case False
    then show ?thesis
      by (auto simp: resolveKey_def s3Key_def path_relative_def Let_def Win32)
  next
    case True
    with assms Win32 have "\<not> (length ?xs < length ?ys \<and> take (length ?xs) ?ys = ?xs)"
      by (simp add: is_under_def)
    from not_under_cases [OF this] show ?thesis
    proof
      assume "common_len ?xs ?ys < length ?xs"
      from climbs [OF this, of backslash "drop (common_len ?xs ?ys) (comps absolutePath)"]
      show ?thesis
        by (simp add: resolveKey_def s3Key_def path_relative_def Let_def Win32 True replace_backslashes_dots)
    next
      assume eq: "?ys = ?xs"
      then have "length (comps absolutePath) = length (comps base)"
        by (metis length_map)
      with eq show ?thesis
        by (simp add: resolveKey_def s3Key_def path_relative_def Let_def Win32 True
            common_len_prefix [of _ "[]", simplified] replace_backslashes_def)
    qed
  qed
qed

theorem resolveKey_total_witness:
  "\<not> is_under Posix ex_base ex_outside \<and>
   (\<exists>key. resolveKey Posix ex_base ex_outside = Inr key \<and> take 2 key = ''..'')"
proof -
  have n: "\<not> is_under Posix ex_base ex_outside"
    by (simp add: is_under_def fold_case_def ex_base_def ex_outside_def)
  from resolveKey_total [OF n]
  obtain key where k: "resolveKey Posix ex_base ex_outside = Inr key"
    and "key = [] \<or> take 2 key = ''..'' \<or>
         (Posix = Win32 \<and> toLowerCase (drive ex_outside) \<noteq> toLowerCase (drive ex_base) \<and>
          key = replace_backslashes (render Win32 ex_outside))"
    by blast
  moreover have "resolveKey Posix ex_base ex_outside \<noteq> Inr []"
    by (simp add: ex_base_def ex_outside_def resolveKey_def s3Key_def
        path_relative_def replace_backslashes_def backslash_def)
  ultimately have "take 2 key = ''..''" by auto
  with n k show ?thesis by blast
qed

lemma replace_plain:
  "backslash \<notin> set s \<Longrightarrow> replace_backslashes s = s"
  by (induction s) (auto simp: replace_backslashes_def)

lemma replace_append:
  "replace_backslashes (xs @ ys) = replace_backslashes xs @ replace_backslashes ys"
  by (simp add: replace_backslashes_def)

lemma replace_join_backslash:
  "(\<And>name. name \<in> set names \<Longrightarrow> backslash \<notin> set name) \<Longrightarrow>
   replace_backslashes (join_with backslash names) = join_with CHR ''/'' names"
proof (induction backslash names rule: join_with.induct)
  case 1
  show ?case by (simp add: replace_backslashes_def)
next
  case (2 x)
  then show ?case by (simp add: replace_plain)
next
  case (3 x y ys)
  then have "replace_backslashes (join_with backslash (y # ys)) = join_with CHR ''/'' (y # ys)"
    by simp
  moreover have "replace_backslashes x = x"
    using 3 by (simp add: replace_plain)
  moreover have "replace_backslashes [backslash] = ''/''"
    by (simp add: replace_backslashes_def)
  ultimately show ?case
    using replace_append [of x "backslash # join_with backslash (y # ys)"]
      replace_append [of "[backslash]" "join_with backslash (y # ys)"]
    by simp
qed

lemma replace_join_slash:
  "(\<And>name. name \<in> set names \<Longrightarrow> backslash \<notin> set name) \<Longrightarrow>
   replace_backslashes (join_with CHR ''/'' names) = join_with CHR ''/'' names"
proof (induction "CHR ''/''" names rule: join_with.induct)
  case 1
  show ?case by (simp add: replace_backslashes_def)
next
  case (2 x)
  then show ?case by (simp add: replace_plain)
next
  case (3 x y ys)
  then have "replace_backslashes (join_with CHR ''/'' (y # ys)) = join_with CHR ''/'' (y # ys)"
    by simp
  moreover have "replace_backslashes x = x"
    using 3 by (simp add: replace_plain)
  moreover have "replace_backslashes ''/'' = ''/''"
    by (simp add: replace_backslashes_def backslash_def)
  ultimately show ?case
    using replace_append [of x "CHR ''/'' # join_with CHR ''/'' (y # ys)"]
      replace_append [of "''/''" "join_with CHR ''/'' (y # ys)"]
    by simp
qed

text \<open>
  What holds of the keys: where no name below the base directory holds a backslash, as on
  Windows, the key is the names below the base directory joined by \<open>/\<close>.
\<close>

lemma key_of_file_below_base:
  assumes "comps p = comps base @ names"
      and "pf = Posix \<or> toLowerCase (drive p) = toLowerCase (drive base)"
      and "\<And>name. name \<in> set names \<Longrightarrow> backslash \<notin> set name"
  shows "s3Key pf base p = join_with CHR ''/'' names"
proof (cases pf)
  case Posix
  with assms(1,3) show ?thesis
    by (simp add: s3Key_def path_relative_def Let_def common_len_prefix replace_join_slash)
next
  case Win32
  have "common_len (map toLowerCase (comps base)) (map toLowerCase (comps p)) = length (comps base)"
    using common_len_prefix [of "map toLowerCase (comps base)" "map toLowerCase names"]
    by (simp add: assms(1))
  with assms Win32 show ?thesis
    by (simp add: s3Key_def path_relative_def Let_def replace_join_backslash)
qed

lemma take_shorter:
  assumes "take (Suc n) xs = ys @ [y]" and "length ys = n"
  shows "take n xs = ys"
proof -
  have "take n xs = take n (take (Suc n) xs)" by (simp add: min_def)
  also have "\<dots> = ys" using assms by simp
  finally show ?thesis .
qed

lemma scanned_below:
  "p \<in> set (files_below dir n) \<Longrightarrow>
     drive p = drive dir \<and> length (comps dir) < length (comps p) \<and>
     take (length (comps dir)) (comps p) = comps dir"
  "p \<in> set (files_among dir es) \<Longrightarrow>
     drive p = drive dir \<and> length (comps dir) < length (comps p) \<and>
     take (length (comps dir)) (comps p) = comps dir"
proof (induction dir n and dir es rule: files_below_files_among.induct)
  case (6 dir name entries rest)
  show ?case
  proof (cases "p \<in> set (files_among dir rest)")
    case True
    then show ?thesis by (rule "6.IH"(2))
  next
    case False
    with "6.prems" have "p \<in> set (files_below (path_join dir name) (Directory entries))"
      by simp
    from "6.IH"(1) [OF this]
    have d: "drive p = drive dir" and l: "Suc (length (comps dir)) < length (comps p)"
      and t: "take (Suc (length (comps dir))) (comps p) = comps dir @ [name]"
      by (simp_all add: path_join_def)
    from take_shorter [OF t] d l show ?thesis by simp
  qed
next
  case (8 dir name rest)
  show ?case
  proof (cases "p = path_join dir name")
    case True
    then show ?thesis by (simp add: path_join_def)
  next
    case False
    with "8.prems" have "p \<in> set (files_among dir rest)" by simp
    then show ?thesis by (rule "8.IH")
  qed
qed simp_all

lemma scanFolders_files_from:
  "p \<in> set (allFiles (scanFolders cfg w folders st)) \<Longrightarrow>
   p \<in> set (allFiles st) \<or>
   (\<exists>folder n. disk w folder = Some n \<and> p \<in> set (files_below (path_join (baseDir cfg) folder) n))"
proof (induction folders arbitrary: st)
  case Nil
  then show ?case by simp
next
  case (Cons f folders)
  show ?case
  proof (cases "disk w f")
    case None
    with Cons.prems Cons.IH [of "st\<lparr>console := console st @ [SkipWarning f]\<rparr>"]
    show ?thesis by auto
  next
    case (Some n)
    with Cons.prems Cons.IH [of "scanDir (path_join (baseDir cfg) f) n st"]
    show ?thesis by (auto simp: scan_tree)
  qed
qed

text \<open>Every file the scan returns lies below a folder of the base directory.\<close>

lemma scanned_file_key:
  assumes "p \<in> set (allFiles (getAllFiles cfg w folders))"
      and "\<And>name. name \<in> set (drop (length (comps (baseDir cfg))) (comps p)) \<Longrightarrow>
             backslash \<notin> set name"
  shows "is_under (os w) (baseDir cfg) p \<and>
         s3Key (os w) (baseDir cfg) p =
           join_with CHR ''/'' (drop (length (comps (baseDir cfg))) (comps p))"
proof -
  let ?base = "baseDir cfg"
  from scanFolders_files_from [OF assms(1) [unfolded getAllFiles_def]]
  obtain folder n where "p \<in> set (files_below (path_join ?base folder) n)"
    by auto
  from scanned_below(1) [OF this]
  have d: "drive p = drive ?base" and l: "Suc (length (comps ?base)) < length (comps p)"
    and t: "take (Suc (length (comps ?base))) (comps p) = comps ?base @ [folder]"
    by (simp_all add: path_join_def)
  from take_shorter [OF t] have t': "take (length (comps ?base)) (comps p) = comps ?base"
    by simp
  then have c: "comps p = comps ?base @ drop (length (comps ?base)) (comps p)"
    by (metis append_take_drop_id)
  have u: "is_under (os w) ?base p"
    using d l t' by (cases "os w") (simp_all add: is_under_def take_map)
  from key_of_file_below_base [OF c _ assms(2), of "os w"] d u show ?thesis
    by simp
qed

text \<open>
  Claim C6 asks for the path below the base directory with the separators of the platform
  turned into \<open>/\<close>.  The program replaces every backslash, on every platform.  On POSIX
  a backslash is an ordinary character of a name, so the key of the file \<open>a\b.txt\<close> in
  \<open>Grand\<close> is not its relative path: it is the key of the file \<open>b.txt\<close> in \<open>Grand/a\<close>.
\<close>

theorem key_backslash_collision:
  "is_under Posix ex_base ex_backslash \<and>
   path_relative Posix ex_base ex_backslash = ''Grand/a'' @ [backslash] @ ''b.txt'' \<and>
   s3Key Posix ex_base ex_backslash = ''Grand/a/b.txt'' \<and>
   s3Key Posix ex_base ex_nested = ''Grand/a/b.txt'' \<and>
   ex_backslash \<noteq> ex_nested"
  by (simp add: is_under_def ex_base_def ex_backslash_def ex_nested_def ex_file_def path_join_def
      s3Key_def path_relative_def replace_backslashes_def backslash_def)

section \<open>The average speed\<close>

lemma main_Summary_speed:
  "main cfg w folders sch = Some (Summary r) \<Longrightarrow>
   averageSpeed r = js_round (throughput (reportUploaded r) (elapsed w)) \<and> 0 < reportTotal r"
  by (auto simp: main_def during_def Let_def split: if_splits option.splits prod.splits)

lemma js_round_finite: "(\<exists>q. js_round x = Finite q) \<longleftrightarrow> (\<exists>q. x = Finite q)"
  by (cases x) simp_all

text \<open>
  Claim C4 says that the division by the duration is guarded.  It is not: when no file
  can be read and no retry is configured, every call settles before the clock advances, and
  the summary reports \<open>NaN\<close> files per second; with files uploaded in the same
  millisecond it reports \<open>Infinity\<close>.
\<close>

theorem throughput_unguarded_counterexample:
  "main ex_cfg_once ex_world_instant FOLDERS_TO_UPLOAD [] =
     Some (Summary \<lparr>reportTotal = 3, reportUploaded = 0, reportFailed = 3,
                    reportSeconds = Finite 0, averageSpeed = NaN\<rparr>) \<and>
   throughput 0 (elapsed ex_world_instant) = NaN \<and>
   throughput 2 0 = Infinity"
  by code_simp

text \<open>
  Claim C4, amended.  The quotient \<open>uploadedFiles / duration\<close> is computed without a
  guard: it is a finite number exactly when the measured duration is not zero, \<open>NaN\<close>
  when the duration is zero and nothing was uploaded, and \<open>Infinity\<close> when the duration
  is zero and something was.  The summary prints the rounded quotient.  A run that finds no
  file exits with code 0 before the quotient is computed.
\<close>

theorem throughput_finite_iff:
  "(throughput n ms = NaN \<longleftrightarrow> ms = 0 \<and> n = 0) \<and>
   (throughput n ms = Infinity \<longleftrightarrow> ms = 0 \<and> n \<noteq> 0) \<and>
   (ms \<noteq> 0 \<longrightarrow> throughput n ms = Finite (of_nat n * 1000 / of_int ms)) \<and>
   (\<forall>r. main cfg w folders sch = Some (Summary r) \<longrightarrow>
      averageSpeed r = js_round (throughput (reportUploaded r) (elapsed w)) \<and>
      ((\<exists>q. averageSpeed r = Finite q) \<longleftrightarrow> elapsed w \<noteq> 0)) \<and>
   ((\<exists>folder \<in> set folders. existsSync w folder) \<and> allFiles (getAllFiles cfg w folders) = [] \<longrightarrow>
      main cfg w folders sch = Some (Exit 0))"
proof (intro conjI allI impI)
  show "throughput n ms = NaN \<longleftrightarrow> ms = 0 \<and> n = 0"
    by (simp add: throughput_def)
  show "throughput n ms = Infinity \<longleftrightarrow> ms = 0 \<and> n \<noteq> 0"
    by (simp add: throughput_def)
  show "throughput n ms = Finite (of_nat n * 1000 / of_int ms)" if "ms \<noteq> 0"
    using that by (simp add: throughput_def)
next
  fix r
  assume m: "main cfg w folders sch = Some (Summary r)"
  from main_Summary_speed [OF m]
  show sp: "averageSpeed r = js_round (throughput (reportUploaded r) (elapsed w))" by simp
  have "(\<exists>q. throughput (reportUploaded r) (elapsed w) = Finite q) \<longleftrightarrow> elapsed w \<noteq> 0"
    by (simp add: throughput_def)
  then show "(\<exists>q. averageSpeed r = Finite q) \<longleftrightarrow> elapsed w \<noteq> 0"
    by (simp only: sp js_round_finite)
next
  assume a: "(\<exists>folder \<in> set folders. existsSync w folder) \<and> allFiles (getAllFiles cfg w folders) = []"
  then have "filter (existsSync w) folders \<noteq> []"
    by (auto simp: filter_empty_conv)
  with a show "main cfg w folders sch = Some (Exit 0)"
    by (simp add: main_def)
qed


text \<open>
  Two files in a second and a half; the example run, whose clock shows a second and a half;
  and a run over an empty folder.
\<close>

theorem throughput_finite_iff_witness:
  "throughput 2 1500 = Finite (4 / 3) \<and>
   (\<exists>r q. main ex_cfg (ex_world disk_ok sink_up) FOLDERS_TO_UPLOAD [1, 0, 2] = Some (Summary r) \<and>
          elapsed (ex_world disk_ok sink_up) \<noteq> 0 \<and> averageSpeed r = Finite q) \<and>
   (\<exists>folder \<in> set FOLDERS_TO_UPLOAD. existsSync ex_world_empty folder) \<and>
   allFiles (getAllFiles ex_cfg ex_world_empty FOLDERS_TO_UPLOAD) = [] \<and>
   main ex_cfg ex_world_empty FOLDERS_TO_UPLOAD [] = Some (Exit 0)"
proof -
  let ?w = "ex_world disk_ok sink_up"
  note T = throughput_finite_iff [of 2 1500 ex_cfg ?w FOLDERS_TO_UPLOAD "[1, 0, 2]"]
  have "(1500::int) \<noteq> 0" by simp
  with T have "throughput 2 1500 = Finite (of_nat 2 * 1000 / of_int 1500)" by blast
  then have 1: "throughput 2 1500 = Finite (4 / 3)" by simp
  have "case main ex_cfg ?w FOLDERS_TO_UPLOAD [1, 0, 2] of
          Some (Summary r) \<Rightarrow> True | _ \<Rightarrow> False"
    by code_simp
  then obtain r where m: "main ex_cfg ?w FOLDERS_TO_UPLOAD [1, 0, 2] = Some (Summary r)"
    by (auto split: option.splits ending.splits)
  have e: "elapsed ?w \<noteq> 0" by (simp add: ex_world_def)
  from T m e obtain q where 2: "averageSpeed r = Finite q" by blast
  have g: "existsSync ex_world_empty ''Grand''"
    by (simp add: existsSync_def ex_world_empty_def)
  then have 3: "\<exists>folder \<in> set FOLDERS_TO_UPLOAD. existsSync ex_world_empty folder"
    by (auto simp: FOLDERS_TO_UPLOAD_def)
  have 4: "allFiles (getAllFiles ex_cfg ex_world_empty FOLDERS_TO_UPLOAD) = []"
    by code_simp
  from throughput_finite_iff [of _ _ ex_cfg ex_world_empty FOLDERS_TO_UPLOAD "[]"] 3 4
  have 5: "main ex_cfg ex_world_empty FOLDERS_TO_UPLOAD [] = Some (Exit 0)" by blast
  from 1 m e 2 3 4 5 show ?thesis by blast
qed

section \<open>The order of the events does not matter\<close>

lemma catch_block_ok:
  assumes "catch_block cfg f k m s = (u, s')"
      and "\<forall>j\<le>k. failure w f j \<noteq> None" and "k \<le> last_attempt cfg 0"
  shows "unit_ok cfg w f u \<and> uploadedFiles s' = uploadedFiles s + won u \<and>
         failedFiles s' = failedFiles s + lost u"
proof (cases "int k < retryAttempts cfg")
  case True
  with assms show ?thesis
    by (auto simp: catch_block_def emit_def won_def lost_def)
next
  case False
  with assms(3) have "last_attempt cfg 0 = k"
    by (auto simp: last_attempt_def)
  with assms(2) have "\<not> verdict cfg w f"
    by (auto simp: verdict_def)
  with False assms(1) show ?thesis
    by (auto simp: catch_block_def give_up_def emit_def won_def lost_def)
qed

lemma start_attempt_ok:
  assumes "start_attempt cfg w f k s = (u, s')"
      and "\<forall>j<k. failure w f j \<noteq> None" and "k \<le> last_attempt cfg 0"
  shows "unit_ok cfg w f u \<and> uploadedFiles s' = uploadedFiles s + won u \<and>
         failedFiles s' = failedFiles s + lost u"
proof (cases "readFileSync w f k")
  case (Inl m)
  then have "failure w f k = Some m" by (simp add: failure_def)
  with assms(2) have all: "\<forall>j\<le>k. failure w f j \<noteq> None"
    by (auto simp: le_less)
  from assms(1) Inl
  have "catch_block cfg f k m (emit (ReadFile f) s) = (u, s')"
    by (simp add: start_attempt_def before_await_def)
  from catch_block_ok [OF this all assms(3)] show ?thesis
    by (simp add: emit_def)
next
  case (Inr body)
  with assms show ?thesis
    by (auto simp: start_attempt_def before_await_def emit_def won_def lost_def)
qed

lemma resume_ok:
  assumes "resume cfg w f u s = (u', s')" and "unit_ok cfg w f u" and "\<not> is_settled u"
  shows "unit_ok cfg w f u' \<and> uploadedFiles s' = uploadedFiles s + won u' \<and>
         failedFiles s' = failedFiles s + lost u'"
proof (cases u)
  case (InFlight k)
  with assms(2) obtain body where rd: "readFileSync w f k = Inr body"
    and before: "\<forall>j<k. failure w f j \<noteq> None" and k: "k \<le> last_attempt cfg 0"
    by (auto split: sum.splits)
  show ?thesis
  proof (cases "send w f k")
    case None
    with rd have "failure w f k = None" by (simp add: failure_def)
    with k have "verdict cfg w f" by (auto simp: verdict_def)
    with assms(1) InFlight None show ?thesis
      by (auto simp: resume_def after_await_def emit_def won_def lost_def)
  next
    case (Some m)
    with rd have "failure w f k = Some m" by (simp add: failure_def)
    with before have all: "\<forall>j\<le>k. failure w f j \<noteq> None"
      by (auto simp: le_less)
    from assms(1) InFlight Some have "catch_block cfg f k m s = (u', s')"
      by (simp add: resume_def after_await_def)
    from catch_block_ok [OF this all k] show ?thesis .
  qed
next
  case (Sleeping k)
  with assms(2) have all: "\<forall>j<Suc k. failure w f j \<noteq> None"
    and "int k < retryAttempts cfg"
    by (auto simp: less_Suc_eq_le)
  then have k: "Suc k \<le> last_attempt cfg 0"
    by (auto simp: last_attempt_def)
  from assms(1) Sleeping have "start_attempt cfg w f (Suc k) s = (u', s')"
    by (simp add: resume_def)
  from start_attempt_ok [OF this all k] show ?thesis .
next
  case (Settled b)
  with assms(3) show ?thesis by simp
qed

lemma dispatch_ok:
  "dispatch cfg w b s = (act, s') \<Longrightarrow>
   list_all (\<lambda>(f, u). unit_ok cfg w f u) act \<and>
   uploadedFiles s' = uploadedFiles s + wins act \<and>
   failedFiles s' = failedFiles s + losses act"
proof (induction b arbitrary: s act s')
  case Nil
  then show ?case by (simp add: wins_def losses_def)
next
  case (Cons f b)
  obtain u s1 where st: "start_attempt cfg w f 0 s = (u, s1)" by fastforce
  obtain us s2 where ds: "dispatch cfg w b s1 = (us, s2)" by fastforce
  from Cons.prems st ds have act: "act = (f, u) # us" and s': "s' = s2" by auto
  from start_attempt_ok [OF st] Cons.IH [OF ds] show ?case
    by (simp add: act s' wins_def losses_def)
qed

lemma settled_results:
  assumes "list_all (\<lambda>(f, u). is_settled u) act"
      and "list_all (\<lambda>(f, u). unit_ok cfg w f u) act"
  shows "map (\<lambda>(f, u). result u) act = map (verdict cfg w) (map fst act) \<and>
         length (filter id (map (\<lambda>(f, u). result u) act)) = wins act \<and>
         length (filter Not (map (\<lambda>(f, u). result u) act)) = losses act \<and>
         map (\<lambda>(f, u). Some u) act = map (\<lambda>f. Some (Settled (verdict cfg w f))) (map fst act) \<and>
         wins act = length (filter (verdict cfg w) (map fst act)) \<and>
         losses act = length (filter (\<lambda>f. \<not> verdict cfg w f) (map fst act))"
  using assms
proof (induction act)
  case Nil
  show ?case by (simp add: wins_def losses_def)
next
  case (Cons a act)
  obtain f u where a: "a = (f, u)" by fastforce
  from Cons.prems a obtain b where u: "u = Settled b" by (cases u) simp_all
  from Cons a u show ?case
    by (cases b) (simp_all add: wins_def losses_def won_def lost_def)
qed

lemma advance_linv:
  "linv cfg w files fin act q s \<Longrightarrow>
   linv cfg w files (finished (advance cfg w fin act q s)) (active (advance cfg w fin act q s))
     (queue (advance cfg w fin act q s)) (tally (advance cfg w fin act q s))"
proof (induction cfg w fin act q s rule: advance.induct)
  case (1 cfg w fin act s)
  then show ?case by simp
next
  case (2 cfg w fin act batch rest s)
  show ?case
  proof (cases "list_all (\<lambda>(f, u). is_settled u) act")
    case False
    with "2.prems" show ?thesis by simp
  next
    case True
    obtain act' s' where ds: "dispatch cfg w batch s = (act', s')" by fastforce
    let ?fin' = "fin @ map (\<lambda>(f, u). result u) act"
    from "2.prems" have len: "length fin \<le> length files"
      and dr: "drop (length fin) files = map fst act @ batch @ concat rest"
      and fin: "fin = map (verdict cfg w) (take (length fin) files)"
      and ok: "list_all (\<lambda>(f, u). unit_ok cfg w f u) act"
      and up: "uploadedFiles s = length (filter id fin) + wins act"
      and fa: "failedFiles s = length (filter Not fin) + losses act"
      by (simp_all add: linv_def)
    note sr = settled_results [OF True ok]
    define P where "P = take (length fin) files"
    have lP: "length P = length fin"
      using len by (simp add: P_def)
    have "files = take (length fin) files @ drop (length fin) files"
      by (rule append_take_drop_id [symmetric])
    then have files: "files = P @ map fst act @ batch @ concat rest"
      unfolding dr P_def [symmetric] .
    have tk: "take (length ?fin') files = P @ map fst act"
      by (simp add: files lP)
    have dp: "drop (length ?fin') files = batch @ concat rest"
      by (simp add: files lP)
    from dispatch_done [OF ds] have fst': "map fst act' = batch" by simp
    from dispatch_ok [OF ds] have ok': "list_all (\<lambda>(f, u). unit_ok cfg w f u) act'"
      and up': "uploadedFiles s' = uploadedFiles s + wins act'"
      and fa': "failedFiles s' = failedFiles s + losses act'" by simp_all
    have le': "length ?fin' \<le> length files"
      by (simp add: files lP)
    have finP: "fin = map (verdict cfg w) P"
      using fin by (simp add: P_def)
    have "?fin' = map (verdict cfg w) (P @ map fst act)"
      using sr finP by simp
    also have "P @ map fst act = take (length ?fin') files"
      by (rule tk [symmetric])
    finally have f': "?fin' = map (verdict cfg w) (take (length ?fin') files)" .
    have dp': "drop (length ?fin') files = map fst act' @ concat rest"
      by (simp only: dp fst')
    have up'': "uploadedFiles s' = length (filter id ?fin') + wins act'"
      using up' up sr by simp
    have fa'': "failedFiles s' = length (filter Not ?fin') + losses act'"
      using fa' fa sr by simp
    have "linv cfg w files ?fin' act' rest s'"
      unfolding linv_def
      using le' dp' f' ok' up'' fa'' by blast
    from "2.IH" [OF True ds [symmetric] refl this] show ?thesis
      using True ds by simp
  qed
qed


lemma wins_update:
  "p < length act \<Longrightarrow> act ! p = (f, u) \<Longrightarrow> \<not> is_settled u \<Longrightarrow>
   wins (act[p := (f, u')]) = wins act + won u' \<and>
   losses (act[p := (f, u')]) = losses act + lost u' \<and>
   map fst (act[p := (f, u')]) = map fst act"
proof (induction act arbitrary: p)
  case Nil
  then show ?case by simp
next
  case (Cons a act)
  show ?case
  proof (cases p)
    case 0
    with Cons.prems show ?thesis
      by (cases u) (simp_all add: wins_def losses_def won_def lost_def)
  next
    case (Suc p')
    with Cons.prems Cons.IH [of p'] show ?thesis
      by (simp add: wins_def losses_def)
  qed
qed

lemma ok_update:
  "list_all (\<lambda>(f, u). unit_ok cfg w f u) act \<Longrightarrow> unit_ok cfg w f u' \<Longrightarrow>
   list_all (\<lambda>(f, u). unit_ok cfg w f u) (act[p := (f, u')])"
proof (induction act arbitrary: p)
  case Nil
  then show ?case by simp
next
  case (Cons a act)
  then show ?case by (cases p) simp_all
qed

lemma ok_nth:
  "list_all (\<lambda>(f, u). unit_ok cfg w f u) act \<Longrightarrow> p < length act \<Longrightarrow> act ! p = (f, u) \<Longrightarrow>
   unit_ok cfg w f u"
  by (auto simp: list_all_length)

lemma step_linv:
  assumes "slinv cfg w files sc" and "step cfg w i sc = Some sc'"
  shows "slinv cfg w files sc'"
proof -
  from assms(2) obtain p f u u' s' where p: "p < length (active sc)"
    and fu: "active sc ! p = (f, u)" and ns: "\<not> is_settled u"
    and rs: "resume cfg w f u (tally sc) = (u', s')"
    and sc': "sc' = advance cfg w (finished sc) ((active sc)[p := (f, u')]) (queue sc) s'"
    by (rule step_unfold)
  from assms(1) have L: "linv cfg w files (finished sc) (active sc) (queue sc) (tally sc)"
    by (simp add: slinv_def)
  then have ok: "list_all (\<lambda>(f, u). unit_ok cfg w f u) (active sc)"
    by (simp add: linv_def)
  from resume_ok [OF rs ok_nth [OF ok p fu] ns]
  have ok': "unit_ok cfg w f u'" and up: "uploadedFiles s' = uploadedFiles (tally sc) + won u'"
    and fa: "failedFiles s' = failedFiles (tally sc) + lost u'" by simp_all
  note wu = wins_update [OF p fu ns, of u']
  have "linv cfg w files (finished sc) ((active sc)[p := (f, u')]) (queue sc) s'"
    unfolding linv_def
    using L ok_update [OF ok ok', of p] up fa wu by (simp add: linv_def)
  from advance_linv [OF this] show ?thesis
    by (simp add: slinv_def sc')
qed

lemma exec_linv:
  "slinv cfg w files sc \<Longrightarrow> exec cfg w sch sc = Some sc' \<Longrightarrow> slinv cfg w files sc'"
proof (induction sch arbitrary: sc)
  case Nil
  then show ?case by simp
next
  case (Cons i sch)
  then show ?case
    by (auto split: option.splits dest: step_linv)
qed

lemma start_linv:
  assumes "0 < concurrency cfg" and "processBatch_start cfg w files = Some sc0"
  shows "slinv cfg w files sc0"
proof -
  let ?bs = "consecutive_groups (nat (concurrency cfg)) files"
  from assms have sc0: "sc0 = advance cfg w [] [] ?bs zero"
    by (simp add: processBatch_start_def make_batches_groups)
  have "linv cfg w files [] [] ?bs zero"
    using assms(1) by (simp add: linv_def concat_groups zero_def wins_def losses_def)
  from advance_linv [OF this] show ?thesis
    by (simp add: slinv_def sc0)
qed

lemma count_results:
  "length (filter id (map g xs)) = length (filter g xs) \<and>
   length (filter Not (map g xs)) = length (filter (\<lambda>x. \<not> g x) xs)"
  by (induction xs) simp_all

lemma verdict_uploadFile: "verdict cfg w f = fst (uploadFile cfg w f 0 s)"
  by (simp add: verdict_def uploadFile_verdict)

text \<open>
  The order of the events does not matter: when every call has settled, every task has
  the result that \<open>uploadFile\<close> has for its file, and the counters count these results.
\<close>

lemma schedule_independent:
  assumes "0 < concurrency cfg" and "processBatch_start cfg w files = Some sc0"
      and "exec cfg w sch sc0 = Some sc" and "complete sc"
  shows "statuses sc = map (\<lambda>f. Some (Settled (fst (uploadFile cfg w f 0 zero)))) files \<and>
         uploadedFiles (tally sc) = length (filter (\<lambda>f. fst (uploadFile cfg w f 0 zero)) files) \<and>
         failedFiles (tally sc) =
           length (filter (\<lambda>f. \<not> fst (uploadFile cfg w f 0 zero)) files)"
proof -
  let ?fin = "finished sc" and ?act = "active sc"
  let ?v = "verdict cfg w"
  from exec_linv [OF start_linv [OF assms(1,2)] assms(3)]
  have L: "linv cfg w files ?fin ?act (queue sc) (tally sc)"
    by (simp add: slinv_def)
  from assms(4) have q: "queue sc = []" and all: "list_all (\<lambda>(f, u). is_settled u) ?act"
    by (simp_all add: complete_def)
  from L q have len: "length ?fin \<le> length files"
    and dr: "drop (length ?fin) files = map fst ?act"
    and fin: "?fin = map ?v (take (length ?fin) files)"
    and ok: "list_all (\<lambda>(f, u). unit_ok cfg w f u) ?act"
    and up: "uploadedFiles (tally sc) = length (filter id ?fin) + wins ?act"
    and fa: "failedFiles (tally sc) = length (filter Not ?fin) + losses ?act"
    by (simp_all add: linv_def)
  note sr = settled_results [OF all ok]
  define P where "P = take (length ?fin) files"
  have "files = take (length ?fin) files @ drop (length ?fin) files"
    by (rule append_take_drop_id [symmetric])
  then have files: "files = P @ map fst ?act"
    unfolding dr P_def [symmetric] .
  have finP: "?fin = map ?v P" using fin by (simp add: P_def)
  have st: "statuses sc = map (\<lambda>f. Some (Settled (?v f))) files"
    using sr by (simp add: statuses_def q finP files)
  from sr have w: "wins ?act = length (filter ?v (map fst ?act))"
    and l: "losses ?act = length (filter (\<lambda>f. \<not> ?v f) (map fst ?act))"
    by blast+
  have u: "uploadedFiles (tally sc) = length (filter ?v files)"
    using up w count_results [of ?v P] by (simp add: finP files)
  have f: "failedFiles (tally sc) = length (filter (\<lambda>f. \<not> ?v f) files)"
    using fa l count_results [of ?v P] by (simp add: finP files)
  have v: "?v = (\<lambda>f. fst (uploadFile cfg w f 0 zero))"
    by (rule ext) (rule verdict_uploadFile)
  from st u f show ?thesis
    unfolding v by blast
qed

section \<open>A thrown value without a message\<close>

text \<open>
  Where every thrown value is an \<open>Error\<close> object, the definitions with the parameter
  \<open>nl\<close> are the definitions without it.
\<close>

lemma uploadFile_any_objects:
  assumes "\<And>f k. \<not> nl f k"
  shows "uploadFile_any cfg w nl f k s =
         (Some (fst (uploadFile cfg w f k s)), snd (uploadFile cfg w f k s))"
proof (induction cfg w f k s rule: uploadFile.induct)
  case (1 cfg w f k s)
  obtain r s1 where tb: "try_body cfg w f k s = (r, s1)" by fastforce
  show ?case
  proof (cases r)
    case None
    with tb show ?thesis
      by (subst uploadFile_any.simps, subst (1 2) uploadFile.simps) simp
  next
    case (Some msg)
    show ?thesis
    proof (cases "int k < retryAttempts cfg")
      case True
      from "1.IH" [OF tb [symmetric] Some True] tb Some True show ?thesis
        by (subst uploadFile_any.simps, subst (1 2) uploadFile.simps) simp
    next
      case False
      with tb Some assms show ?thesis
        by (subst uploadFile_any.simps, subst (1 2) uploadFile.simps)
           (simp add: give_up_def Let_def)
    qed
  qed
qed

lemma catch_block_any_objects:
  "(\<And>f k. \<not> nl f k) \<Longrightarrow>
   catch_block_any cfg nl f k m s =
     (Live (fst (catch_block cfg f k m s)), snd (catch_block cfg f k m s))"
  by (simp add: catch_block_any_def catch_block_def give_up_def Let_def)

lemma start_attempt_any_objects:
  "(\<And>f k. \<not> nl f k) \<Longrightarrow>
   start_attempt_any cfg w nl f k s =
     (Live (fst (start_attempt cfg w f k s)), snd (start_attempt cfg w f k s))"
  by (simp add: start_attempt_any_def start_attempt_def catch_block_any_objects
      split: prod.splits sum.splits)

lemma resume_any_objects:
  "(\<And>f k. \<not> nl f k) \<Longrightarrow>
   resume_any cfg w nl f u s =
     (Live (fst (resume cfg w f u s)), snd (resume cfg w f u s))"
  by (simp add: resume_any_def resume_def catch_block_any_objects start_attempt_any_objects
      split: ustate.splits prod.splits option.splits)

lemma dispatch_any_objects:
  assumes "\<And>f k. \<not> nl f k"
  shows "dispatch_any cfg w nl b s =
         (map lift (fst (dispatch cfg w b s)), snd (dispatch cfg w b s))"
proof (induction b arbitrary: s)
  case Nil
  show ?case by simp
next
  case (Cons f b)
  then show ?case
    by (simp add: start_attempt_any_objects [OF assms] lift_def split: prod.splits)
qed

lemma fulfilled_lift:
  "list_all (\<lambda>(f, u). is_fulfilled u) (map lift act) = list_all (\<lambda>(f, u). is_settled u) act"
  "map (\<lambda>(f, u). gresult u) (map lift act) = map (\<lambda>(f, u). result u) act"
  "\<not> list_ex (\<lambda>(f, u). u = Rejected) (map lift act)"
  by (induction act) (auto simp: lift_def)

lemma gresult_lift: "(\<lambda>(f, u). gresult u) \<circ> lift = (\<lambda>(f, u). result u)"
  by (auto simp: fun_eq_iff lift_def)

lemma embed_simps:
  "gtally (embed sc) = tally sc" "gfinished (embed sc) = finished sc"
  "gactive (embed sc) = map lift (active sc)" "gqueue (embed sc) = queue sc"
  by (simp_all add: embed_def)

lemma advance_any_objects:
  assumes "\<And>f k. \<not> nl f k"
  shows "advance_any cfg w nl fin (map lift act) q s = embed (advance cfg w fin act q s)"
proof (induction cfg w fin act q s rule: advance.induct)
  case (1 cfg w fin act s)
  show ?case by (simp add: embed_def)
next
  case (2 cfg w fin act batch rest s)
  show ?case
  proof (cases "list_all (\<lambda>(f, u). is_settled u) act")
    case False
    then show ?thesis by (simp add: fulfilled_lift embed_def)
  next
    case True
    obtain act' s' where ds: "dispatch cfg w batch s = (act', s')" by fastforce
    from "2.IH" [OF True ds [symmetric] refl] True ds show ?thesis
      by (simp add: fulfilled_lift gresult_lift dispatch_any_objects [OF assms])
  qed
qed

lemma step_any_objects:
  assumes "\<And>f k. \<not> nl f k"
  shows "step_any cfg w nl i (embed sc) = map_option embed (step cfg w i sc)"
proof (cases "length (finished sc) \<le> i \<and> i - length (finished sc) < length (active sc)")
  case False
  then show ?thesis
    by (auto simp: step_any_def step_def embed_def Let_def)
next
  case True
  let ?p = "i - length (finished sc)"
  obtain f u where fu: "active sc ! ?p = (f, u)" by fastforce
  have na: "\<not> aborted (embed sc)"
    by (simp add: aborted_def embed_simps fulfilled_lift)
  have nth: "map lift (active sc) ! ?p = (f, Live u)"
    using True fu by (simp add: lift_def)
  have upd: "(map lift (active sc))[?p := (f, Live u')] = map lift ((active sc)[?p := (f, u')])" for u'
    by (simp add: map_update lift_def)
  show ?thesis
  proof (cases "is_settled u")
    case True
    with \<open>length (finished sc) \<le> i \<and> ?p < length (active sc)\<close> na nth fu show ?thesis
      by (simp add: step_any_def step_def embed_simps Let_def)
  next
    case False
    obtain u' s' where rs: "resume cfg w f u (tally sc) = (u', s')" by fastforce
    from True na nth fu False rs show ?thesis
      by (simp add: step_any_def step_def Let_def embed_simps resume_any_objects [OF assms] upd
          advance_any_objects [OF assms])
  qed
qed

lemma exec_any_objects:
  assumes "\<And>f k. \<not> nl f k"
  shows "exec_any cfg w nl sch (embed sc) = map_option embed (exec cfg w sch sc)"
proof (induction sch arbitrary: sc)
  case Nil
  show ?case by simp
next
  case (Cons i sch)
  show ?case
    by (cases "step cfg w i sc") (simp_all add: step_any_objects [OF assms] Cons.IH)
qed

lemma main_any_objects:
  assumes "\<And>f k. \<not> nl f k"
  shows "main_any cfg w nl folders sch = main cfg w folders sch"
proof -
  have start: "processBatch_start_any cfg w nl files =
      map_option embed (processBatch_start cfg w files)" for files
    using advance_any_objects [OF assms, where act = "[]"]
    by (simp add: processBatch_start_any_def processBatch_start_def split: option.splits)
  have na: "\<not> aborted (embed sc)" for sc
    by (simp add: aborted_def embed_simps fulfilled_lift)
  have gc: "gcomplete (embed sc) = complete sc" for sc
    by (simp add: gcomplete_def complete_def embed_simps fulfilled_lift)
  have gt: "gtally (embed sc) = tally sc" for sc
    by (simp add: embed_simps)
  show ?thesis
    by (simp add: main_any_def main_def during_def Let_def start exec_any_objects [OF assms]
        na gc gt split: option.splits)
qed


end
